theory Spec2Isabelle
  imports Main
begin

section \<open>C strings, bounded reads and writes\<close>

text \<open>
  A \<^verbatim>\<open>char\<close> buffer is the list of its bytes. Reading or writing outside the
  buffer is undefined behaviour in C; the model makes it a fault value, so that a
  theorem saying a function returns \<open>Inr\<close> says that every access stayed in bounds.
\<close>

abbreviation NUL :: char where "NUL \<equiv> CHR 0x00"

datatype fault = Read_out_of_bounds | Write_out_of_bounds

definition rd :: "char list \<Rightarrow> nat \<Rightarrow> fault + char" where
  "rd s i = (if i < length s then Inr (s ! i) else Inl Read_out_of_bounds)"

definition c_string :: "char list \<Rightarrow> string" where
  \<comment> \<open>the NUL-terminated string that starts a buffer\<close>
  "c_string buf = takeWhile (\<lambda>c. c \<noteq> NUL) buf"

section \<open>The lexer (src/lex.c)\<close>

text \<open>
  \<^verbatim>\<open>lex.h\<close> is not among the sources. The two structs are modelled from the fields
  \<^verbatim>\<open>lex.c\<close> uses: \<^verbatim>\<open>struct lexer\<close> with \<^verbatim>\<open>input, pos, cur_lineno, cur_linepos\<close> and
  \<^verbatim>\<open>struct token\<close> with \<^verbatim>\<open>type, literal, line, pos, start, end\<close> (here \<open>tok_pos\<close>
  and \<open>tok_end\<close>; \<open>start\<close> and \<open>tok_end\<close> are offsets into \<open>input\<close>). The \<^verbatim>\<open>literal\<close>
  array has the 64 bytes that \<^verbatim>\<open>memset(t->literal, '\0', 64)\<close> clears. The macro
  \<^verbatim>\<open>MAX_IDENT_LENGTH\<close> is a parameter \<open>M\<close> of \<open>gettoken\<close>.
\<close>

datatype token_type =
    TOKEN_ILLEGAL | TOKEN_EOF | TOKEN_IDENT | TOKEN_INT | TOKEN_FUNCTION | TOKEN_LET
  | TOKEN_TRUE | TOKEN_FALSE | TOKEN_IF | TOKEN_ELSE | TOKEN_FOR | TOKEN_IN | TOKEN_WHILE
  | TOKEN_RETURN | TOKEN_ASSIGN | TOKEN_PLUS | TOKEN_MINUS | TOKEN_BANG | TOKEN_ASTERISK
  | TOKEN_SLASH | TOKEN_PERCENT | TOKEN_LT | TOKEN_LTE | TOKEN_GT | TOKEN_GTE | TOKEN_EQ
  | TOKEN_NOT_EQ | TOKEN_COMMA | TOKEN_SEMICOLON | TOKEN_LPAREN | TOKEN_RPAREN
  | TOKEN_LBRACE | TOKEN_RBRACE | TOKEN_STRING | TOKEN_LBRACKET | TOKEN_RBRACKET
  | TOKEN_AND | TOKEN_OR | TOKEN_BREAK | TOKEN_CONTINUE | TOKEN_COLON

record lexer =
  input :: "char list"
  pos :: nat
  cur_lineno :: nat
  cur_linepos :: nat

record token =
  type :: token_type
  literal :: "char list"
  line :: nat
  tok_pos :: nat
  start :: nat
  tok_end :: nat

definition isspace :: "char \<Rightarrow> bool" where
  \<comment> \<open>\<^verbatim>\<open>isspace\<close> of the C locale: space, \<^verbatim>\<open>\t \n \v \f \r\<close>; no byte from 0x80 on is a
      space, a digit or a letter\<close>
  "isspace ch = (ch = CHR '' '' \<or> (9 \<le> (of_char ch :: nat) \<and> (of_char ch :: nat) \<le> 13))"

definition isdigit :: "char \<Rightarrow> bool" where
  "isdigit ch = (48 \<le> (of_char ch :: nat) \<and> (of_char ch :: nat) \<le> 57)"

definition is_letter :: "char \<Rightarrow> bool" where
  "is_letter ch =
     ((97 \<le> (of_char ch :: nat) \<and> (of_char ch :: nat) \<le> 122)
      \<or> (65 \<le> (of_char ch :: nat) \<and> (of_char ch :: nat) \<le> 90)
      \<or> ch = CHR ''_'')"

definition get_ident :: "token \<Rightarrow> token" where
  "get_ident t =
     (let s = c_string (literal t) in
      if s = ''let'' then t\<lparr>type := TOKEN_LET\<rparr>
      else if s = ''fn'' then t\<lparr>type := TOKEN_FUNCTION\<rparr>
      else if s = ''true'' then t\<lparr>type := TOKEN_TRUE\<rparr>
      else if s = ''false'' then t\<lparr>type := TOKEN_FALSE\<rparr>
      else if s = ''if'' then t\<lparr>type := TOKEN_IF\<rparr>
      else if s = ''else'' then t\<lparr>type := TOKEN_ELSE\<rparr>
      else if s = ''return'' then t\<lparr>type := TOKEN_RETURN\<rparr>
      else if s = ''while'' then t\<lparr>type := TOKEN_WHILE\<rparr>
      else if s = ''for'' then t\<lparr>type := TOKEN_FOR\<rparr>
      else if s = ''in'' then t\<lparr>type := TOKEN_IN\<rparr>
      else if s = ''break'' then t\<lparr>type := TOKEN_BREAK\<rparr>
      else if s = ''continue'' then t\<lparr>type := TOKEN_CONTINUE\<rparr>
      else t\<lparr>type := TOKEN_IDENT\<rparr>)"

definition new_lexer :: "char list \<Rightarrow> lexer" where
  "new_lexer inp = \<lparr>input = inp, pos = 0, cur_lineno = 1, cur_linepos = 0\<rparr>"

definition next_char :: "lexer \<Rightarrow> lexer" where
  \<comment> \<open>the pair \<^verbatim>\<open>l->pos++; l->cur_linepos++;\<close>\<close>
  "next_char l = l\<lparr>pos := pos l + 1, cur_linepos := cur_linepos l + 1\<rparr>"

text \<open>The loop \<^verbatim>\<open>while (isspace(ch))\<close>: \<open>ch\<close> is the character already read.\<close>

function skip_whitespace :: "lexer \<Rightarrow> char \<Rightarrow> fault + (lexer \<times> char)" where
  "skip_whitespace l ch =
     (if isspace ch then
        (let l1 = (if ch = CHR ''\<newline>''
                   then l\<lparr>cur_lineno := cur_lineno l + 1, cur_linepos := 0\<rparr> else l)
         in case rd (input l1) (pos l1) of
              Inl e \<Rightarrow> Inl e
            | Inr c \<Rightarrow> skip_whitespace (next_char l1) c)
      else Inr (l, ch))"
  by pat_completeness auto
termination
  by (relation "measure (\<lambda>(l, ch). length (input l) - pos l)")
     (auto simp: rd_def next_char_def split: if_splits)

declare skip_whitespace.simps [simp del]

text \<open>The loop that skips a line comment: up to, not over, a newline or the NUL.\<close>

function skip_comment :: "lexer \<Rightarrow> fault + lexer" where
  "skip_comment l =
     (case rd (input l) (pos l) of
        Inl e \<Rightarrow> Inl e
      | Inr c \<Rightarrow> if c \<noteq> CHR ''\<newline>'' \<and> c \<noteq> NUL then skip_comment (next_char l) else Inr l)"
  by pat_completeness auto
termination
  by (relation "measure (\<lambda>l. length (input l) - pos l)")
     (auto simp: rd_def next_char_def split: if_splits)

declare skip_comment.simps [simp del]

text \<open>
  The loop of the string case. \<^verbatim>\<open>||\<close> and \<^verbatim>\<open>&&\<close> short-circuit: the byte at
  \<^verbatim>\<open>pos - 2\<close> is read only when the character is a double quote.
\<close>

function string_loop :: "lexer \<Rightarrow> fault + lexer" where
  "string_loop l =
     (case rd (input l) (pos l) of
        Inl e \<Rightarrow> Inl e
      | Inr ch \<Rightarrow>
          (let l1 = next_char l in
           if ch = NUL then Inr l1
           else if ch = CHR 0x22 then
             (case rd (input l1) (pos l1 - 2) of
                Inl e \<Rightarrow> Inl e
              | Inr p \<Rightarrow> if p \<noteq> CHR 0x5C then Inr l1 else string_loop l1)
           else string_loop l1))"
  by pat_completeness auto
termination
  by (relation "measure (\<lambda>l. length (input l) - pos l)")
     (auto simp: rd_def next_char_def split: if_splits)

declare string_loop.simps [simp del]

text \<open>
  The two loops of the default case. \<open>lit\<close> is \<^verbatim>\<open>t->literal\<close>, \<open>i\<close> the index; the
  test \<^verbatim>\<open>i < MAX_IDENT_LENGTH - 1\<close> on \<^verbatim>\<open>int32_t\<close> is \<open>i + 1 < M\<close> on naturals.
  The write \<^verbatim>\<open>t->literal[i++] = ch\<close> is checked against the array's length.
\<close>

function ident_loop ::
  "nat \<Rightarrow> lexer \<Rightarrow> char list \<Rightarrow> char \<Rightarrow> nat \<Rightarrow> fault + (lexer \<times> char list \<times> char \<times> nat)" where
  "ident_loop M l lit ch i =
     (if (is_letter ch \<or> isdigit ch) \<and> i + 1 < M then
        (if i < length lit then
           (case rd (input l) (pos l) of
              Inl e \<Rightarrow> Inl e
            | Inr c \<Rightarrow> ident_loop M (next_char l) (lit[i := ch]) c (i + 1))
         else Inl Write_out_of_bounds)
      else Inr (l, lit, ch, i))"
  by pat_completeness auto
termination
  by (relation "measure (\<lambda>(M, l, lit, ch, i). M - i)") auto

declare ident_loop.simps [simp del]

function digit_loop ::
  "nat \<Rightarrow> lexer \<Rightarrow> char list \<Rightarrow> char \<Rightarrow> nat \<Rightarrow> fault + (lexer \<times> char list \<times> char \<times> nat)" where
  "digit_loop M l lit ch i =
     (if isdigit ch \<and> i + 1 < M then
        (if i < length lit then
           (case rd (input l) (pos l) of
              Inl e \<Rightarrow> Inl e
            | Inr c \<Rightarrow> digit_loop M (next_char l) (lit[i := ch]) c (i + 1))
         else Inl Write_out_of_bounds)
      else Inr (l, lit, ch, i))"
  by pat_completeness auto
termination
  by (relation "measure (\<lambda>(M, l, lit, ch, i). M - i)") auto

declare digit_loop.simps [simp del]

definition wr :: "char list \<Rightarrow> nat \<Rightarrow> char \<Rightarrow> fault + char list" where
  "wr buf i c = (if i < length buf then Inr (buf[i := c]) else Inl Write_out_of_bounds)"

definition one_char :: "token \<Rightarrow> token_type \<Rightarrow> char \<Rightarrow> token" where
  \<comment> \<open>\<^verbatim>\<open>t->type = ty; t->literal[0] = ch; t->literal[1] = '\0';\<close>\<close>
  "one_char t ty ch = t\<lparr>type := ty, literal := (literal t)[0 := ch, 1 := NUL]\<rparr>"

definition strcpy_literal :: "token \<Rightarrow> string \<Rightarrow> token" where
  \<comment> \<open>\<^verbatim>\<open>strcpy(t->literal, s)\<close> for the literals of one or two characters\<close>
  "strcpy_literal t s = t\<lparr>literal := s @ [NUL] @ drop (length s + 1) (literal t)\<rparr>"

definition two_char ::
  "lexer \<Rightarrow> token \<Rightarrow> char \<Rightarrow> char \<Rightarrow> token_type \<Rightarrow> token_type \<Rightarrow> fault + (lexer \<times> token)" where
  \<comment> \<open>the cases \<^verbatim>\<open>=\<close> and \<^verbatim>\<open>!\<close>: a second character \<open>c2\<close> makes the longer token\<close>
  "two_char l t ch c2 ty2 ty1 =
     (case rd (input l) (pos l) of
        Inl e \<Rightarrow> Inl e
      | Inr ch_next \<Rightarrow>
          if ch_next = c2
          then Inr (next_char l, strcpy_literal (t\<lparr>type := ty2\<rparr>) [ch, c2])
          else Inr (l, one_char t ty1 ch))"

definition cmp_char ::
  "lexer \<Rightarrow> token \<Rightarrow> char \<Rightarrow> token_type \<Rightarrow> token_type \<Rightarrow> fault + (lexer \<times> token)" where
  \<comment> \<open>the cases \<^verbatim>\<open><\<close> and \<^verbatim>\<open>>\<close>\<close>
  "cmp_char l t ch ty2 ty1 =
     (case rd (input l) (pos l) of
        Inl e \<Rightarrow> Inl e
      | Inr ch_next \<Rightarrow>
          if ch_next = CHR ''=''
          then Inr (next_char l, strcpy_literal (t\<lparr>type := ty2\<rparr>) [ch, CHR ''=''])
          else Inr (l, strcpy_literal (t\<lparr>type := ty1\<rparr>) [ch]))"

definition double_char ::
  "lexer \<Rightarrow> token \<Rightarrow> char \<Rightarrow> token_type \<Rightarrow> fault + (lexer \<times> token)" where
  \<comment> \<open>the cases \<^verbatim>\<open>|\<close> and \<^verbatim>\<open>&\<close>: without the second character nothing is assigned\<close>
  "double_char l t ch ty =
     (case rd (input l) (pos l) of
        Inl e \<Rightarrow> Inl e
      | Inr ch_next \<Rightarrow>
          if ch_next = ch
          then Inr (next_char l, strcpy_literal (t\<lparr>type := ty\<rparr>) [ch, ch])
          else Inr (l, t))"

definition prev_char :: "lexer \<Rightarrow> lexer" where
  \<comment> \<open>\<^verbatim>\<open>l->pos--; l->cur_linepos--;\<close> (return the last character to the input)\<close>
  "prev_char l = l\<lparr>pos := pos l - 1, cur_linepos := cur_linepos l - 1\<rparr>"

definition default_case :: "nat \<Rightarrow> lexer \<Rightarrow> token \<Rightarrow> char \<Rightarrow> fault + (lexer \<times> token)" where
  "default_case M l t ch =
     (if is_letter ch then
        (case ident_loop M l (literal t) ch 0 of
           Inl e \<Rightarrow> Inl e
         | Inr (l1, lit, ch1, i) \<Rightarrow>
             (case wr lit i NUL of
                Inl e \<Rightarrow> Inl e
              | Inr lit1 \<Rightarrow> Inr (prev_char l1, get_ident (t\<lparr>literal := lit1\<rparr>))))
      else if isdigit ch then
        (case digit_loop M l (literal t) ch 0 of
           Inl e \<Rightarrow> Inl e
         | Inr (l1, lit, ch1, i) \<Rightarrow>
             (case wr lit i NUL of
                Inl e \<Rightarrow> Inl e
              | Inr lit1 \<Rightarrow> Inr (prev_char l1, t\<lparr>literal := lit1, type := TOKEN_INT\<rparr>)))
      else Inr (l, one_char t TOKEN_ILLEGAL ch))"

lemma skip_whitespace_frame:
  "skip_whitespace l ch = Inr (l', ch') \<Longrightarrow> input l' = input l \<and> pos l \<le> pos l'"
proof (induction l ch rule: skip_whitespace.induct)
  case (1 l ch)
  show ?case
  proof (cases "isspace ch")
    case False
    with "1.prems" show ?thesis by (subst (asm) skip_whitespace.simps) simp
  next
    case True
    define l1 where "l1 = (if ch = CHR ''\<newline>''
                   then l\<lparr>cur_lineno := cur_lineno l + 1, cur_linepos := 0\<rparr> else l)"
    have il1: "input l1 = input l" "pos l1 = pos l" by (simp_all add: l1_def)
    from True "1.prems" obtain c where c: "rd (input l1) (pos l1) = Inr c"
      and rec: "skip_whitespace (next_char l1) c = Inr (l', ch')"
      by (subst (asm) skip_whitespace.simps) (simp add: l1_def Let_def split: sum.splits)
    from "1.IH"[OF True l1_def c rec] il1 show ?thesis
      by (simp add: next_char_def)
  qed
qed

lemma skip_comment_frame:
  "skip_comment l = Inr l' \<Longrightarrow> input l' = input l \<and> pos l \<le> pos l'"
proof (induction l rule: skip_comment.induct)
  case (1 l)
  from "1.prems" obtain c where c: "rd (input l) (pos l) = Inr c"
    by (subst (asm) skip_comment.simps) (cases "rd (input l) (pos l)", simp_all)
  show ?case
  proof (cases "c \<noteq> CHR ''\<newline>'' \<and> c \<noteq> NUL")
    case True
    with "1.prems" c have "skip_comment (next_char l) = Inr l'"
      by (subst (asm) skip_comment.simps) simp
    from "1.IH"[OF c True this] show ?thesis by (simp add: next_char_def)
  next
    case False
    with "1.prems" c show ?thesis by (subst (asm) skip_comment.simps) auto
  qed
qed

text \<open>
  \<open>gettoken\<close> returns 1 on every path, so the model returns the lexer and the token
  it leaves behind. The token is an in-out parameter: a field the call does not
  assign keeps the caller's value.
\<close>

function gettoken :: "nat \<Rightarrow> lexer \<Rightarrow> token \<Rightarrow> fault + (lexer \<times> token)" where
  "gettoken M l t =
     (case rd (input l) (pos l) of
        Inl e \<Rightarrow> Inl e
      | Inr ch0 \<Rightarrow>
     (case skip_whitespace (next_char l) ch0 of
        Inl e \<Rightarrow> Inl e
      | Inr (l1, ch) \<Rightarrow>
     (let t1 = t\<lparr>literal := replicate 64 NUL, line := cur_lineno l1, tok_pos := cur_linepos l1\<rparr>
      in
      if ch = CHR ''='' then two_char l1 t1 ch (CHR ''='') TOKEN_EQ TOKEN_ASSIGN
      else if ch = CHR '';'' then Inr (l1, one_char t1 TOKEN_SEMICOLON ch)
      else if ch = CHR '':'' then Inr (l1, one_char t1 TOKEN_COLON ch)
      else if ch = CHR ''('' then Inr (l1, one_char t1 TOKEN_LPAREN ch)
      else if ch = CHR '')'' then Inr (l1, one_char t1 TOKEN_RPAREN ch)
      else if ch = CHR '','' then Inr (l1, one_char t1 TOKEN_COMMA ch)
      else if ch = CHR ''+'' then Inr (l1, one_char t1 TOKEN_PLUS ch)
      else if ch = CHR ''-'' then Inr (l1, one_char t1 TOKEN_MINUS ch)
      else if ch = CHR ''!'' then two_char l1 t1 ch (CHR ''='') TOKEN_NOT_EQ TOKEN_BANG
      else if ch = CHR ''/'' then
        (case rd (input l1) (pos l1) of
           Inl e \<Rightarrow> Inl e
         | Inr ch_next \<Rightarrow>
             if ch_next = CHR ''/'' then
               (case skip_comment l1 of
                  Inl e \<Rightarrow> Inl e
                | Inr l2 \<Rightarrow> gettoken M l2 t1)
             else Inr (l1, one_char t1 TOKEN_SLASH ch))
      else if ch = CHR ''*'' then Inr (l1, one_char t1 TOKEN_ASTERISK ch)
      else if ch = CHR ''<'' then cmp_char l1 t1 ch TOKEN_LTE TOKEN_LT
      else if ch = CHR ''>'' then cmp_char l1 t1 ch TOKEN_GTE TOKEN_GT
      else if ch = CHR ''{'' then Inr (l1, one_char t1 TOKEN_LBRACE ch)
      else if ch = CHR ''}'' then Inr (l1, one_char t1 TOKEN_RBRACE ch)
      else if ch = CHR ''['' then Inr (l1, one_char t1 TOKEN_LBRACKET ch)
      else if ch = CHR '']'' then Inr (l1, one_char t1 TOKEN_RBRACKET ch)
      else if ch = CHR ''%'' then Inr (l1, one_char t1 TOKEN_PERCENT ch)
      else if ch = CHR ''|'' then double_char l1 t1 ch TOKEN_OR
      else if ch = CHR ''&'' then double_char l1 t1 ch TOKEN_AND
      else if ch = CHR 0x22 then
        (case string_loop l1 of
           Inl e \<Rightarrow> Inl e
         | Inr l2 \<Rightarrow> Inr (l2, t1\<lparr>type := TOKEN_STRING, start := pos l1, tok_end := pos l2 - 1\<rparr>))
      else if ch = NUL then Inr (l1, t1\<lparr>type := TOKEN_EOF, literal := (literal t1)[0 := NUL]\<rparr>)
      else default_case M l1 t1 ch)))"
  by pat_completeness auto
termination
proof (relation "measure (\<lambda>(M, l, t). length (input l) - pos l)", goal_cases)
  case 1
  show ?case by simp
next
  case (2 M l t ch0 x l1 ch t1 ch_next l2)
  from 2 have a: "pos l < length (input l)"
    by (auto simp: rd_def split: if_splits)
  from 2 have "skip_whitespace (next_char l) ch0 = Inr (l1, ch)" by simp
  from skip_whitespace_frame[OF this] have b: "input l1 = input l" "pos l + 1 \<le> pos l1"
    by (simp_all add: next_char_def)
  from 2 have "skip_comment l1 = Inr l2" by simp
  from skip_comment_frame[OF this] b have "input l2 = input l" "pos l + 1 \<le> pos l2"
    by simp_all
  with a show ?case by simp
qed

declare gettoken.simps [simp del]

text \<open>
  A lexer whose input still holds its terminating NUL at or behind \<open>pos\<close>, the tokens
  that carry a word or a number in \<open>literal\<close>, and what the literal of a token must
  satisfy for the limit \<open>M\<close>.
\<close>

definition terminated :: "lexer \<Rightarrow> bool" where
  "terminated l = (NUL \<in> set (drop (pos l) (input l)))"

definition word_type :: "token_type \<Rightarrow> bool" where
  "word_type ty = (ty \<in> {TOKEN_IDENT, TOKEN_INT, TOKEN_FUNCTION, TOKEN_LET, TOKEN_TRUE,
     TOKEN_FALSE, TOKEN_IF, TOKEN_ELSE, TOKEN_FOR, TOKEN_IN, TOKEN_WHILE, TOKEN_RETURN,
     TOKEN_BREAK, TOKEN_CONTINUE})"

definition good_token :: "nat \<Rightarrow> token \<Rightarrow> bool" where
  "good_token M t = (length (literal t) = 64 \<and>
     (word_type (type t) \<longrightarrow> length (c_string (literal t)) \<le> M - 1))"

text \<open>A token as a caller may pass it in.\<close>

definition T0 :: token where
  "T0 = \<lparr>type = TOKEN_ILLEGAL, literal = replicate 64 NUL, line = 0, tok_pos = 0, start = 0, tok_end = 0\<rparr>"

section \<open>The front end (the second source file: read_file, run_script, repl, main)\<close>

type_synonym addr = nat

text \<open>
  Modelled from the spec: \<^verbatim>\<open>object.h\<close> is not among the sources. The type tags are the
  variants of the spec's value model; the front end names two of them,
  \<^verbatim>\<open>OBJ_COMPILED_FUNCTION\<close> and \<^verbatim>\<open>OBJ_BUILTIN\<close>. An object is its tag (\<^verbatim>\<open>obj.type\<close>, here
  \<open>obj_type\<close>) and the payload of the union.
\<close>

datatype object_type =
    OBJ_NULL | OBJ_BOOL | OBJ_INT | OBJ_STRING | OBJ_ARRAY | OBJ_MAP
  | OBJ_COMPILED_FUNCTION | OBJ_CLOSURE | OBJ_BUILTIN

record 'v object =
  obj_type :: object_type
  obj_value :: 'v

text \<open>
  What the front end itself writes to standard output, call by call, and the two calls
  into the core whose arguments the REPL's state contract is about.
\<close>

datatype printf_arg = Int_arg int | Str_arg string

datatype 'v printed = Printf string "printf_arg list" | Puts string | Print_object "'v object"

datatype 'v call = Compiler_new_with_state addr addr | Vm_new_with_globals addr "'v object list"

record ('h, 'v) world =
  heap :: 'h
  out :: "'v printed list"
  calls :: "'v call list"

text \<open>
  \<^verbatim>\<open>struct parser\<close> (its header is not among the sources): the two fields the front end
  reads, and the rest.
\<close>

record 'x parser =
  errors :: nat
  error_messages :: "string list"
  parser_rest :: 'x

text \<open>
  The collaborators of the front end are not among the sources: the parser, the compiler,
  the symbol table, the object lists and the virtual machine. They are parameters, with
  the C signatures: a pointer is an address, and a function that may allocate or mutate
  takes the heap \<open>'h\<close> (everything behind the pointers) and returns the new one.
  \<open>vm_globals m h\<close> is the array \<^verbatim>\<open>machine->globals\<close>. The macros \<^verbatim>\<open>BUFSIZ\<close> and
  \<^verbatim>\<open>GLOBALS_SIZE\<close>, the files \<^verbatim>\<open>fopen\<close> can open for reading with their bytes, and the
  indeterminate bytes of memory that \<^verbatim>\<open>realloc\<close> adds are parameters as well.

  Modelled from the spec: \<open>vm_new_with_globals\<close> takes the caller's array by value,
  since the spec has the VM own its globals storage and the buffer copied in.
\<close>

record ('h, 'x, 'v) env =
  BUFSIZ :: nat
  GLOBALS_SIZE :: nat
  files :: "string \<Rightarrow> char list option"
  fresh :: "nat \<Rightarrow> char"
  symbol_table_new :: "'h \<Rightarrow> addr \<times> 'h"
  make_object_list :: "nat \<Rightarrow> 'h \<Rightarrow> addr \<times> 'h"
  new_parser :: "lexer \<Rightarrow> 'x parser"
  parse_program :: "'x parser \<Rightarrow> 'h \<Rightarrow> (addr \<times> 'x parser) \<times> 'h"
  compiler_new :: "'h \<Rightarrow> addr \<times> 'h"
  compiler_new_with_state :: "addr \<Rightarrow> addr \<Rightarrow> 'h \<Rightarrow> addr \<times> 'h"
  compile_program :: "addr \<Rightarrow> addr \<Rightarrow> 'h \<Rightarrow> int \<times> 'h"
  compiler_error_str :: "int \<Rightarrow> string"
  get_bytecode :: "addr \<Rightarrow> 'h \<Rightarrow> addr \<times> 'h"
  vm_new :: "addr \<Rightarrow> 'h \<Rightarrow> addr \<times> 'h"
  vm_new_with_globals :: "addr \<Rightarrow> 'v object list \<Rightarrow> 'h \<Rightarrow> addr \<times> 'h"
  vm_run :: "addr \<Rightarrow> 'h \<Rightarrow> int \<times> 'h"
  vm_stack_last_popped :: "addr \<Rightarrow> 'h \<Rightarrow> 'v object"
  vm_globals :: "addr \<Rightarrow> 'h \<Rightarrow> 'v object list"
  free_program :: "addr \<Rightarrow> 'h \<Rightarrow> 'h"
  compiler_free :: "addr \<Rightarrow> 'h \<Rightarrow> 'h"
  vm_free :: "addr \<Rightarrow> 'h \<Rightarrow> 'h"
  free :: "addr \<Rightarrow> 'h \<Rightarrow> 'h"

text \<open>
  How a call ends: it returns a value, the process exits (\<^verbatim>\<open>exit(n)\<close>), or an access
  leaves its buffer.
\<close>

datatype 'a outcome = Return 'a | Exit int | Fault fault

definition EXIT_SUCCESS :: int where "EXIT_SUCCESS = 0"
definition EXIT_FAILURE :: int where "EXIT_FAILURE = 1"

definition put :: "'v printed list \<Rightarrow> ('h, 'v) world \<Rightarrow> ('h, 'v) world" where
  "put xs w = w\<lparr>out := out w @ xs\<rparr>"

definition print_version :: "('h, 'v) world \<Rightarrow> ('h, 'v) world" where
  "print_version w = put [Printf ''Pepper v%d.%d.%d\<newline>'' [Int_arg 0, Int_arg 0, Int_arg 1]] w"

subsection \<open>read_file\<close>

definition realloc :: "('h, 'x, 'v) env \<Rightarrow> char list \<Rightarrow> nat \<Rightarrow> char list" where
  \<comment> \<open>the first bytes are kept, the added ones are indeterminate\<close>
  "realloc E buf n = take n buf @ map (fresh E) [length buf..<n]"

text \<open>
  The loop \<^verbatim>\<open>while ((read = fread(input, sizeof(char), BUFSIZ, f)) > 0)\<close>. \<open>f\<close> is what
  is left of the file; \<^verbatim>\<open>fread\<close> delivers the next \<^verbatim>\<open>BUFSIZ\<close> bytes, or all that is
  left, and stores them from \<^verbatim>\<open>input[0]\<close> on, the address the source passes in every
  round. \<^verbatim>\<open>size\<close> (here \<open>sz\<close>) and \<^verbatim>\<open>read\<close> are \<^verbatim>\<open>uint32_t\<close>. \<^verbatim>\<open>calloc\<close> and \<^verbatim>\<open>realloc\<close>
  are taken to succeed, as the two \<^verbatim>\<open>assert\<close> say.
\<close>

function read_loop ::
  "('h, 'x, 'v) env \<Rightarrow> char list \<Rightarrow> nat \<Rightarrow> char list \<Rightarrow> fault + (char list \<times> nat)" where
  "read_loop E inp sz f =
     (let chunk = take (BUFSIZ E) f; read = length chunk in
      if read > 0 then
        (if read \<le> length inp then
           (let inp1 = chunk @ drop read inp;
                sz1 = (sz + read) mod 2 ^ 32;
                inp2 = (if read \<ge> BUFSIZ E
                        then realloc E inp1 ((sz1 + BUFSIZ E) mod 2 ^ 32) else inp1)
            in read_loop E inp2 sz1 (drop (BUFSIZ E) f))
         else Inl Write_out_of_bounds)
      else Inr (inp, sz))"
  by pat_completeness auto
termination
  by (relation "measure (\<lambda>(E, inp, sz, f). length f)") auto

declare read_loop.simps [simp del]

definition read_file ::
  "('h, 'x, 'v) env \<Rightarrow> string \<Rightarrow> ('h, 'v) world \<Rightarrow> char list outcome \<times> ('h, 'v) world" where
  "read_file E filename w =
     (case files E filename of
        None \<Rightarrow> (Exit 1, put [Printf ''Could not open \"%s\" for reading'' [Str_arg filename]] w)
      | Some f \<Rightarrow>
          (case read_loop E (replicate (BUFSIZ E) NUL) 0 f of
             Inl e \<Rightarrow> (Fault e, w)
           | Inr (inp, sz) \<Rightarrow>
               if sz < length inp then (Return (inp[sz := NUL]), w)
               else (Fault Write_out_of_bounds, w)))"

subsection \<open>run_script\<close>

definition run_script ::
  "('h, 'x, 'v) env \<Rightarrow> string \<Rightarrow> ('h, 'v) world \<Rightarrow> int outcome \<times> ('h, 'v) world" where
  "run_script E filename w =
     (case read_file E filename w of
        (Exit n, w1) \<Rightarrow> (Exit n, w1)
      | (Fault e, w1) \<Rightarrow> (Fault e, w1)
      | (Return inp, w1) \<Rightarrow>
     (let lexer = new_lexer inp;
          parser0 = new_parser E lexer;
          ((program, parser), h1) = parse_program E parser0 (heap w1)
      in
      if errors parser > 0 then
        (Return EXIT_FAILURE,
         put (map (\<lambda>i. Puts (error_messages parser ! i)) [0..<errors parser]) (w1\<lparr>heap := h1\<rparr>))
      else
     (let (compiler, h2) = compiler_new E h1;
          (err, h3) = compile_program E compiler program h2
      in
      if err \<noteq> 0 then
        (Return EXIT_FAILURE,
         put [Printf ''SyntaxError: %s\<newline>'' [Str_arg (compiler_error_str E err)]] (w1\<lparr>heap := h3\<rparr>))
      else
     (let (code, h4) = get_bytecode E compiler h3;
          (machine, h5) = vm_new E code h4;
          (err, h6) = vm_run E machine h5
      in
      if err \<noteq> 0 then
        (Return EXIT_FAILURE,
         put [Printf ''Error executing bytecode: %d\<newline>'' [Int_arg err]] (w1\<lparr>heap := h6\<rparr>))
      else
        (Return EXIT_SUCCESS,
         w1\<lparr>heap := vm_free E machine (free E code (compiler_free E compiler
                        (free_program E program h6)))\<rparr>)))))"

subsection \<open>repl\<close>

text \<open>
  The variables of \<open>repl\<close> that live across iterations: the two pointers, the array
  \<^verbatim>\<open>globals\<close> (not initialised by the source, so its first contents \<open>g0\<close> are a
  parameter) and the line buffer \<^verbatim>\<open>input\<close> (here \<open>input_buf\<close>).
\<close>

record ('h, 'v) repl_state =
  symbol_table :: addr
  constants :: addr
  globals :: "'v object list"
  input_buf :: "char list"
  world :: "('h, 'v) world"

definition repl_init ::
  "('h, 'x, 'v) env \<Rightarrow> 'v object list \<Rightarrow> ('h, 'v) world \<Rightarrow> ('h, 'v) repl_state" where
  "repl_init E g0 w =
     (let w1 = put [Printf ''Press CTRL+c to exit\<newline>\<newline>'' []] (print_version w);
          (st, h1) = symbol_table_new E (heap w1);
          (cs, h2) = make_object_list E 64 h1
      in \<lparr>symbol_table = st, constants = cs, globals = g0,
          input_buf = replicate (BUFSIZ E) NUL, world = w1\<lparr>heap := h2\<rparr>\<rparr>)"

definition fgets :: "nat \<Rightarrow> char list \<Rightarrow> string \<Rightarrow> char list" where
  \<comment> \<open>\<^verbatim>\<open>fgets(buf, n, stdin)\<close> that read the characters \<open>s\<close>: at most \<open>n - 1\<close> are
      stored, then a NUL; the bytes behind stay\<close>
  "fgets n buf s = (let s' = take (n - 1) s in s' @ [NUL] @ drop (length s' + 1) buf)"

definition copy_globals :: "nat \<Rightarrow> 'a list \<Rightarrow> 'a list \<Rightarrow> 'a list" where
  \<comment> \<open>\<^verbatim>\<open>for (i = 0; i < n; i++) dst[i] = src[i];\<close>\<close>
  "copy_globals n src dst = fold (\<lambda>i g. g[i := src ! i]) [0..<n] dst"

text \<open>
  One pass through the body of \<^verbatim>\<open>while (1)\<close>. \<open>rdl\<close> is what \<^verbatim>\<open>fgets\<close> did: \<open>None\<close>
  when it returned \<^verbatim>\<open>NULL\<close>, \<open>Some s\<close> when it stored the characters \<open>s\<close>.
\<close>

definition repl_iter ::
  "('h, 'x, 'v) env \<Rightarrow> string option \<Rightarrow> ('h, 'v) repl_state \<Rightarrow> ('h, 'v) repl_state" where
  "repl_iter E rdl st =
     (let w0 = put [Printf ''>> '' []] (world st) in
      case rdl of
        None \<Rightarrow> st\<lparr>world := w0\<rparr>
      | Some s \<Rightarrow>
     (let inp = fgets (BUFSIZ E) (input_buf st) s;
          lexer = new_lexer inp;
          parser0 = new_parser E lexer;
          ((program, parser), h1) = parse_program E parser0 (heap w0)
      in
      if errors parser > 0 then
        st\<lparr>input_buf := inp,
           world := put (Printf ''Parsing error:\<newline>'' []
                         # map (\<lambda>i. Printf ''- %s\<newline>'' [Str_arg (error_messages parser ! i)])
                             [0..<errors parser])
                      (w0\<lparr>heap := h1\<rparr>)\<rparr>
      else
     (let (compiler, h2) = compiler_new_with_state E (symbol_table st) (constants st) h1;
          w2 = w0\<lparr>calls := calls w0 @ [Compiler_new_with_state (symbol_table st) (constants st)]\<rparr>;
          (err, h3) = compile_program E compiler program h2
      in
      if err \<noteq> 0 then
        st\<lparr>input_buf := inp, world := put [Puts (compiler_error_str E err)] (w2\<lparr>heap := h3\<rparr>)\<rparr>
      else
     (let (code, h4) = get_bytecode E compiler h3;
          (machine, h5) = vm_new_with_globals E code (globals st) h4;
          w5 = w2\<lparr>calls := calls w2 @ [Vm_new_with_globals code (globals st)]\<rparr>;
          (err, h6) = vm_run E machine h5
      in
      if err \<noteq> 0 then
        st\<lparr>input_buf := inp,
           world := put [Printf ''Error executing bytecode: %d\<newline>'' [Int_arg err]]
                      (w5\<lparr>heap := h6\<rparr>)\<rparr>
      else
     (let obj = vm_stack_last_popped E machine h6;
          w6 = (if obj_type obj \<noteq> OBJ_COMPILED_FUNCTION \<and> obj_type obj \<noteq> OBJ_BUILTIN
                then put [Print_object obj, Puts []] w5 else w5)
      in st\<lparr>input_buf := inp,
            globals := copy_globals (GLOBALS_SIZE E) (vm_globals E machine h6) (globals st),
            world := w6\<lparr>heap := free E code h6\<rparr>\<rparr>)))))"

text \<open>The loop run on the first outcomes of \<^verbatim>\<open>fgets\<close>.\<close>

fun repl_steps ::
  "('h, 'x, 'v) env \<Rightarrow> string option list \<Rightarrow> ('h, 'v) repl_state \<Rightarrow> ('h, 'v) repl_state" where
  "repl_steps E [] st = st"
| "repl_steps E (r # rs) st = repl_steps E rs (repl_iter E r st)"

text \<open>
  The loop itself, on the whole sequence \<open>stdin\<close> of outcomes of \<^verbatim>\<open>fgets\<close>. The body has
  four \<^verbatim>\<open>continue\<close> and neither \<^verbatim>\<open>break\<close> nor \<^verbatim>\<open>return\<close>; a value \<open>Some\<close> would be
  the \<^verbatim>\<open>return 0\<close> behind the loop.
\<close>

partial_function (option) repl_loop ::
  "('h, 'x, 'v) env \<Rightarrow> (nat \<Rightarrow> string option) \<Rightarrow> nat \<Rightarrow> ('h, 'v) repl_state
     \<Rightarrow> (int \<times> ('h, 'v) repl_state) option" where
  "repl_loop E stdin n st = repl_loop E stdin (Suc n) (repl_iter E (stdin n) st)"

definition repl ::
  "('h, 'x, 'v) env \<Rightarrow> 'v object list \<Rightarrow> (nat \<Rightarrow> string option) \<Rightarrow> ('h, 'v) world
     \<Rightarrow> (int \<times> ('h, 'v) world) option" where
  "repl E g0 stdin w =
     map_option (\<lambda>(r, st). (r, world st)) (repl_loop E stdin 0 (repl_init E g0 w))"

text \<open>
  The calls one pass makes when \<^verbatim>\<open>fgets\<close> stored the characters \<open>s\<close>, in the order the
  source makes them, with what they returned. The source does not make a call behind
  one that failed; its entry here is then of no account.
\<close>

record ('h, 'x) stages =
  sub_parser :: "'x parser"
  sub_cerr :: int
  sub_machine :: addr
  sub_created :: 'h
  sub_rerr :: int
  sub_ran :: 'h

definition stages_of ::
  "('h, 'x, 'v) env \<Rightarrow> string \<Rightarrow> ('h, 'v) repl_state \<Rightarrow> ('h, 'x) stages" where
  "stages_of E s st =
     (let ((program, parser), h1) =
            parse_program E (new_parser E (new_lexer (fgets (BUFSIZ E) (input_buf st) s)))
              (heap (world st));
          (compiler, h2) = compiler_new_with_state E (symbol_table st) (constants st) h1;
          (cerr, h3) = compile_program E compiler program h2;
          (code, h4) = get_bytecode E compiler h3;
          (machine, h5) = vm_new_with_globals E code (globals st) h4;
          (rerr, h6) = vm_run E machine h5
      in \<lparr>sub_parser = parser, sub_cerr = cerr, sub_machine = machine, sub_created = h5,
          sub_rerr = rerr, sub_ran = h6\<rparr>)"




subsection \<open>main\<close>

text \<open>
  What a call of \<open>main\<close> does: it returns a value and leaves a world behind
  (\<open>Finished\<close>), or it never returns (\<open>Unfinished\<close>), and then what can be seen of
  it is the world after each pass through the loop it is caught in. The only loop
  without an exit is that of \<open>repl\<close>, whose first \<open>k\<close> passes are \<open>repl_steps\<close> on the
  first \<open>k\<close> outcomes of \<^verbatim>\<open>fgets\<close>.
\<close>

datatype ('h, 'v) behaviour =
    Finished "int outcome" "('h, 'v) world"
  | Unfinished "nat \<Rightarrow> ('h, 'v) world"

definition repl_world ::
  "('h, 'x, 'v) env \<Rightarrow> 'v object list \<Rightarrow> (nat \<Rightarrow> string option) \<Rightarrow> ('h, 'v) world
     \<Rightarrow> nat \<Rightarrow> ('h, 'v) world" where
  \<comment> \<open>the world after the first \<open>k\<close> passes through the loop of \<open>repl\<close>\<close>
  "repl_world E g0 stdin w k = world (repl_steps E (map stdin [0..<k]) (repl_init E g0 w))"

text \<open>\<open>argv\<close> is the argument vector, \<^verbatim>\<open>argc\<close> its length.\<close>

definition main ::
  "('h, 'x, 'v) env \<Rightarrow> 'v object list \<Rightarrow> (nat \<Rightarrow> string option) \<Rightarrow> string list
     \<Rightarrow> ('h, 'v) world \<Rightarrow> ('h, 'v) behaviour" where
  "main E g0 stdin argv w =
     (if length argv < 2 then
        (case repl E g0 stdin w of
           Some (r, w') \<Rightarrow> Finished (Return r) w'
         | None \<Rightarrow> Unfinished (repl_world E g0 stdin w))
      else if argv ! 1 = ''--version'' then Finished (Return 0) (print_version w)
      else (case run_script E (argv ! 1) w of (r, w') \<Rightarrow> Finished r w'))"

subsection \<open>An instance of the parameters\<close>

text \<open>
  An instance of the parameters, used only to evaluate theorems at concrete inputs: the
  heap is an allocation counter, every collaborator succeeds, and the machine leaves
  the integer 7 behind. An error case is this instance with one collaborator replaced.
\<close>

definition seven :: "int object" where
  "seven = \<lparr>obj_type = OBJ_INT, obj_value = 7\<rparr>"

definition demo_env :: "(nat, unit, int) env" where
  "demo_env =
     \<lparr>BUFSIZ = 8192, GLOBALS_SIZE = 2,
      files = (\<lambda>n. if n = ''big.pep'' then Some (replicate 8192 (CHR ''a'') @ ''b'')
                    else if n = ''one.pep'' then Some ''1;'' else None),
      fresh = (\<lambda>i. CHR ''?''),
      symbol_table_new = (\<lambda>h. (h, h + 1)),
      make_object_list = (\<lambda>n h. (h, h + 1)),
      new_parser = (\<lambda>l. \<lparr>errors = 0, error_messages = [], parser_rest = ()\<rparr>),
      parse_program = (\<lambda>p h. ((h, p), h + 1)),
      compiler_new = (\<lambda>h. (h, h + 1)),
      compiler_new_with_state = (\<lambda>s c h. (h, h + 1)),
      compile_program = (\<lambda>c p h. (0, h)),
      compiler_error_str = (\<lambda>e. ''unknown identifier''),
      get_bytecode = (\<lambda>c h. (h, h + 1)),
      vm_new = (\<lambda>c h. (h, h + 1)),
      vm_new_with_globals = (\<lambda>c g h. (h, h + 1)),
      vm_run = (\<lambda>m h. (0, h)),
      vm_stack_last_popped = (\<lambda>m h. seven),
      vm_globals = (\<lambda>m h. [seven, seven]),
      free_program = (\<lambda>a h. h),
      compiler_free = (\<lambda>a h. h),
      vm_free = (\<lambda>a h. h),
      free = (\<lambda>a h. h)\<rparr>"

definition demo_world :: "(nat, int) world" where
  "demo_world = \<lparr>heap = 0, out = [], calls = []\<rparr>"

definition demo_state :: "(nat, int) repl_state" where
  "demo_state = repl_init demo_env [\<lparr>obj_type = OBJ_NULL, obj_value = 0\<rparr>,
                                    \<lparr>obj_type = OBJ_NULL, obj_value = 0\<rparr>] demo_world"

section \<open>The symbol table (modelled from the spec)\<close>

text \<open>
  Modelled from the spec: the symbol table's code is not among the sources. A symbol is
  \<open>{name, scope, index}\<close> with one of five scope tags. The table is a stack of scopes,
  the current one first and the outermost last; a scope owns its mapping from names to
  symbols (\<open>store\<close>), its list \<open>free_symbols\<close> and its count \<open>num_definitions\<close>.
\<close>

datatype symbol_scope = Global | Local | Free | Builtin | Function

record symbol =
  name :: string
  scope :: symbol_scope
  index :: nat

record scope_frame =
  store :: "string \<rightharpoonup> symbol"
  free_symbols :: "symbol list"
  num_definitions :: nat

type_synonym symtab = "scope_frame list"

definition push_scope :: "symtab \<Rightarrow> symtab" where
  \<comment> \<open>Modelled from the spec: the scopes are a LIFO stack.\<close>
  "push_scope tbl = \<lparr>store = Map.empty, free_symbols = [], num_definitions = 0\<rparr> # tbl"

fun define_sym :: "string \<Rightarrow> symtab \<Rightarrow> (symbol \<times> symtab) option" where
  \<comment> \<open>Modelled from the spec (\<open>define\<close>): inserts in the current scope, as \<open>Global\<close> if the current
      scope is the outermost, else as \<open>Local\<close>; indices are dense from 0.\<close>
  "define_sym n [] = None"
| "define_sym n (s # enclosing) =
     (let smb = \<lparr>name = n, scope = (if enclosing = [] then Global else Local),
                 index = num_definitions s\<rparr>
      in Some (smb, s\<lparr>store := (store s)(n \<mapsto> smb),
                       num_definitions := num_definitions s + 1\<rparr> # enclosing))"

definition define_free :: "scope_frame \<Rightarrow> symbol \<Rightarrow> symbol \<times> scope_frame" where
  \<comment> \<open>Modelled from the spec: records that an enclosing-scope symbol is captured;
      appends to this scope's \<open>free_symbols\<close>; returns a new symbol with scope \<open>Free\<close>
      and index the new list length minus one. The record is the entry of the scope's
      mapping under the symbol's name, which makes a repeated \<open>resolve\<close> stable.\<close>
  "define_free s original =
     (let fs = free_symbols s @ [original];
          smb = \<lparr>name = name original, scope = Free, index = length fs - 1\<rparr>
      in (smb, s\<lparr>free_symbols := fs, store := (store s)(name original \<mapsto> smb)\<rparr>))"

fun resolve :: "string \<Rightarrow> symtab \<Rightarrow> symbol option \<times> symtab" where
  \<comment> \<open>Modelled from the spec: searches the current scope; if not found, recurses into
      the enclosing scope; a \<open>Global\<close> or \<open>Builtin\<close> result is returned unchanged, any
      other is promoted by \<open>define_free\<close> in the scope that asked.\<close>
  "resolve n [] = (None, [])"
| "resolve n (s # enclosing) =
     (case store s n of
        Some smb \<Rightarrow> (Some smb, s # enclosing)
      | None \<Rightarrow>
          (case resolve n enclosing of
             (None, enclosing') \<Rightarrow> (None, s # enclosing')
           | (Some smb, enclosing') \<Rightarrow>
               if scope smb = Global \<or> scope smb = Builtin then (Some smb, s # enclosing')
               else (let (fsym, s') = define_free s smb in (Some fsym, s' # enclosing'))))"

text \<open>A table for evaluation: a global \<open>g\<close>, a function with the local \<open>a\<close>, and two
  functions nested in it that define nothing.\<close>

definition demo_table :: symtab where
  "demo_table =
     (case define_sym ''g'' (push_scope []) of
        None \<Rightarrow> []
      | Some (g, t1) \<Rightarrow>
          (case define_sym ''a'' (push_scope t1) of
             None \<Rightarrow> []
           | Some (a, t2) \<Rightarrow> push_scope (push_scope t2)))"

section \<open>The compiler and the machine on global bindings (modelled from the spec)\<close>

text \<open>
  Modelled from the spec: the compiler and the virtual machine are not among the
  sources. This section follows sections 3, 4.3, 4.4, 6 and 7 of the spec for the part
  of the language that a global binding goes through: integer literals, names, the
  infix operators \<^verbatim>\<open>+\<close> and \<^verbatim>\<open>/\<close>, \<^verbatim>\<open>let\<close> statements and expression statements, all
  at the outermost scope, where every symbol is \<open>Global\<close>. The instruction stream is
  kept decoded, an opcode with its operand. A value is an \<open>object\<close> whose payload is an
  integer: \<open>Integer(n)\<close> and \<open>Null\<close>.
\<close>

datatype infix_operator = Op_plus | Op_slash

datatype expression =
    Integer_literal int
  | Identifier string
  | Infix_expression infix_operator expression expression

datatype statement = Let_statement string expression | Expression_statement expression

datatype instruction =
    OP_CONSTANT nat | OP_POP | OP_ADD | OP_DIV | OP_SET_GLOBAL nat | OP_GET_GLOBAL nat

definition integer_object :: "int \<Rightarrow> int object" where
  "integer_object n = \<lparr>obj_type = OBJ_INT, obj_value = n\<rparr>"

definition null_object :: "int object" where
  "null_object = \<lparr>obj_type = OBJ_NULL, obj_value = 0\<rparr>"

text \<open>
  Modelled from the spec (section 7): the conditions of a compile error and of a runtime
  error that this part of the language can meet, each with a code of its own that is
  not zero. \<open>Malformed_ast\<close> and \<open>Malformed_program\<close> stand for what the spec leaves to
  a trusted caller: a symbol that is not global here, an operand outside the constant
  pool or the globals array, a pop from an empty stack.
\<close>

datatype compile_error = Unknown_identifier | Malformed_ast

datatype runtime_error = Type_mismatch | Division_by_zero | Stack_overflow | Malformed_program

fun compile_error_code :: "compile_error option \<Rightarrow> int" where
  "compile_error_code None = 0"
| "compile_error_code (Some Unknown_identifier) = 1"
| "compile_error_code (Some Malformed_ast) = 2"

fun runtime_error_code :: "runtime_error option \<Rightarrow> int" where
  "runtime_error_code None = 0"
| "runtime_error_code (Some Type_mismatch) = 1"
| "runtime_error_code (Some Division_by_zero) = 2"
| "runtime_error_code (Some Stack_overflow) = 3"
| "runtime_error_code (Some Malformed_program) = 4"

subsection \<open>The compiler\<close>

text \<open>
  Modelled from the spec (section 4.3): what one compilation works on, the symbol table
  and the constant pool it was given and the instructions it has emitted.
\<close>

record compilation =
  comp_symbols :: symtab
  comp_constants :: "int object list"
  comp_instructions :: "instruction list"

definition emit :: "instruction \<Rightarrow> compilation \<Rightarrow> compilation" where
  "emit i c = c\<lparr>comp_instructions := comp_instructions c @ [i]\<rparr>"

fun compile_expression ::
  "expression \<Rightarrow> compilation \<Rightarrow> compile_error option \<times> compilation" where
  \<comment> \<open>Modelled from the spec: an integer literal compiles to a pooled constant plus
      \<^verbatim>\<open>OP_CONSTANT idx\<close>; a name is resolved, then \<^verbatim>\<open>OP_GET_GLOBAL\<close> is emitted, and a
      name that does not resolve is the error unknown identifier; an infix operator is
      left operand, right operand, operator.\<close>
  "compile_expression (Integer_literal n) c =
     (None, emit (OP_CONSTANT (length (comp_constants c)))
              (c\<lparr>comp_constants := comp_constants c @ [integer_object n]\<rparr>))"
| "compile_expression (Identifier n) c =
     (case resolve n (comp_symbols c) of
        (None, tbl) \<Rightarrow> (Some Unknown_identifier, c\<lparr>comp_symbols := tbl\<rparr>)
      | (Some smb, tbl) \<Rightarrow>
          if scope smb = Global
          then (None, emit (OP_GET_GLOBAL (index smb)) (c\<lparr>comp_symbols := tbl\<rparr>))
          else (Some Malformed_ast, c\<lparr>comp_symbols := tbl\<rparr>))"
| "compile_expression (Infix_expression opr l r) c =
     (case compile_expression l c of
        (Some e, c1) \<Rightarrow> (Some e, c1)
      | (None, c1) \<Rightarrow>
          (case compile_expression r c1 of
             (Some e, c2) \<Rightarrow> (Some e, c2)
           | (None, c2) \<Rightarrow>
               (None, emit (case opr of Op_plus \<Rightarrow> OP_ADD | Op_slash \<Rightarrow> OP_DIV) c2)))"

fun compile_statement ::
  "statement \<Rightarrow> compilation \<Rightarrow> compile_error option \<times> compilation" where
  \<comment> \<open>Modelled from the spec: \<^verbatim>\<open>let name = expr\<close> compiles \<open>expr\<close>, then \<open>define(name)\<close>,
      then emits \<^verbatim>\<open>OP_SET_GLOBAL idx\<close>; an expression statement is the expression and
      \<^verbatim>\<open>OP_POP\<close>.\<close>
  "compile_statement (Let_statement n e) c =
     (case compile_expression e c of
        (Some err, c1) \<Rightarrow> (Some err, c1)
      | (None, c1) \<Rightarrow>
          (case define_sym n (comp_symbols c1) of
             None \<Rightarrow> (Some Malformed_ast, c1)
           | Some (smb, tbl) \<Rightarrow>
               if scope smb = Global
               then (None, emit (OP_SET_GLOBAL (index smb)) (c1\<lparr>comp_symbols := tbl\<rparr>))
               else (Some Malformed_ast, c1\<lparr>comp_symbols := tbl\<rparr>)))"
| "compile_statement (Expression_statement e) c =
     (case compile_expression e c of
        (Some err, c1) \<Rightarrow> (Some err, c1)
      | (None, c1) \<Rightarrow> (None, emit OP_POP c1))"

fun compile_statements ::
  "statement list \<Rightarrow> compilation \<Rightarrow> compile_error option \<times> compilation" where
  \<comment> \<open>Modelled from the spec: on an error compilation aborts.\<close>
  "compile_statements [] c = (None, c)"
| "compile_statements (s # ss) c =
     (case compile_statement s c of
        (Some err, c1) \<Rightarrow> (Some err, c1)
      | (None, c1) \<Rightarrow> compile_statements ss c1)"

subsection \<open>The virtual machine\<close>

text \<open>
  Modelled from the spec (sections 4.4 and 6): the value stack (its top first) of fixed
  capacity, the globals array, and the slot that remembers the value most recently
  removed by \<^verbatim>\<open>OP_POP\<close>. Integer arithmetic wraps to 64 bits; division truncates, and
  division by zero is a runtime error. \<^verbatim>\<open>OP_SET_GLOBAL i\<close> takes the value to write
  from the top of the stack.
\<close>

record machine_state =
  vm_stack :: "int object list"
  vm_slots :: "int object list"
  vm_last_popped :: "int object"

definition STACK_SIZE :: nat where "STACK_SIZE = 2048"

definition wrap64 :: "int \<Rightarrow> int" where
  "wrap64 n = (n + 2 ^ 63) mod 2 ^ 64 - 2 ^ 63"

definition truncated_quotient :: "int \<Rightarrow> int \<Rightarrow> int" where
  "truncated_quotient a b = sgn a * sgn b * (\<bar>a\<bar> div \<bar>b\<bar>)"

definition push :: "int object \<Rightarrow> machine_state \<Rightarrow> runtime_error option \<times> machine_state" where
  "push x m = (if length (vm_stack m) < STACK_SIZE then (None, m\<lparr>vm_stack := x # vm_stack m\<rparr>)
               else (Some Stack_overflow, m))"

definition arithmetic ::
  "(int \<Rightarrow> int \<Rightarrow> int option) \<Rightarrow> machine_state \<Rightarrow> runtime_error option \<times> machine_state" where
  "arithmetic f m =
     (case vm_stack m of
        r # l # s \<Rightarrow>
          if obj_type l = OBJ_INT \<and> obj_type r = OBJ_INT then
            (case f (obj_value l) (obj_value r) of
               None \<Rightarrow> (Some Division_by_zero, m)
             | Some v \<Rightarrow> push (integer_object v) (m\<lparr>vm_stack := s\<rparr>))
          else (Some Type_mismatch, m)
      | _ \<Rightarrow> (Some Malformed_program, m))"

fun execute ::
  "int object list \<Rightarrow> instruction \<Rightarrow> machine_state \<Rightarrow> runtime_error option \<times> machine_state" where
  "execute pool (OP_CONSTANT i) m =
     (if i < length pool then push (pool ! i) m else (Some Malformed_program, m))"
| "execute pool OP_POP m =
     (case vm_stack m of
        [] \<Rightarrow> (Some Malformed_program, m)
      | x # s \<Rightarrow> (None, m\<lparr>vm_stack := s, vm_last_popped := x\<rparr>))"
| "execute pool OP_ADD m = arithmetic (\<lambda>a b. Some (wrap64 (a + b))) m"
| "execute pool OP_DIV m =
     arithmetic (\<lambda>a b. if b = 0 then None else Some (wrap64 (truncated_quotient a b))) m"
| "execute pool (OP_SET_GLOBAL i) m =
     (case vm_stack m of
        [] \<Rightarrow> (Some Malformed_program, m)
      | x # s \<Rightarrow>
          if i < length (vm_slots m)
          then (None, m\<lparr>vm_stack := s, vm_slots := (vm_slots m)[i := x]\<rparr>)
          else (Some Malformed_program, m))"
| "execute pool (OP_GET_GLOBAL i) m =
     (if i < length (vm_slots m) then push (vm_slots m ! i) m else (Some Malformed_program, m))"

fun run_instructions ::
  "int object list \<Rightarrow> instruction list \<Rightarrow> machine_state \<Rightarrow> runtime_error option \<times> machine_state" where
  \<comment> \<open>Modelled from the spec: runs until the instructions are at their end or an error
      occurs.\<close>
  "run_instructions pool [] m = (None, m)"
| "run_instructions pool (i # is) m =
     (case execute pool i m of
        (Some err, m1) \<Rightarrow> (Some err, m1)
      | (None, m1) \<Rightarrow> run_instructions pool is m1)"

subsection \<open>The core as the front end's collaborators\<close>

text \<open>
  Modelled from the spec: the heap behind the pointers of the front end. A cell is a
  symbol table, an object list (the constant pool), a parsed program, a compiler with
  its two pointers and its instructions, a bytecode program with the pointer to its
  constant pool, or a machine with its instructions, the pointer to the constant pool,
  its globals (the machine owns them, the caller's buffer is copied in) and its last
  popped value. \<open>brk\<close> is the next address to hand out.
\<close>

datatype cell =
    Table symtab
  | Object_list "int object list"
  | Program "statement list"
  | Compiler addr addr "instruction list"
  | Bytecode "instruction list" addr
  | Machine "instruction list" addr "int object list" "int object"

record core_heap =
  cells :: "addr \<rightharpoonup> cell"
  brk :: addr

definition alloc :: "cell \<Rightarrow> core_heap \<Rightarrow> addr \<times> core_heap" where
  "alloc c h = (brk h, h\<lparr>cells := (cells h)(brk h \<mapsto> c), brk := brk h + 1\<rparr>)"

definition release :: "addr \<Rightarrow> core_heap \<Rightarrow> core_heap" where
  "release a h = h\<lparr>cells := (cells h)(a := None)\<rparr>"

definition table_at :: "addr \<Rightarrow> core_heap \<Rightarrow> symtab" where
  "table_at a h = (case cells h a of Some (Table tbl) \<Rightarrow> tbl | _ \<Rightarrow> [])"

definition pool_at :: "addr \<Rightarrow> core_heap \<Rightarrow> int object list" where
  "pool_at a h = (case cells h a of Some (Object_list pool) \<Rightarrow> pool | _ \<Rightarrow> [])"

definition core_compile_program :: "addr \<Rightarrow> addr \<Rightarrow> core_heap \<Rightarrow> int \<times> core_heap" where
  \<comment> \<open>Modelled from the spec: \<open>compile_program\<close> of a compiler made by
      \<open>compile_with_state\<close> works on the symbol table and the constant pool it was
      given, so that a submission extends prior state.\<close>
  "core_compile_program cm pa h =
     (case (cells h cm, cells h pa) of
        (Some (Compiler s c code), Some (Program prog)) \<Rightarrow>
          (let (err, r) = compile_statements prog
                 \<lparr>comp_symbols = table_at s h, comp_constants = pool_at c h,
                  comp_instructions = code\<rparr>
           in (compile_error_code err,
               h\<lparr>cells := (cells h)(s \<mapsto> Table (comp_symbols r),
                                      c \<mapsto> Object_list (comp_constants r),
                                      cm \<mapsto> Compiler s c (comp_instructions r))\<rparr>))
      | _ \<Rightarrow> (compile_error_code (Some Malformed_ast), h))"

definition core_get_bytecode :: "addr \<Rightarrow> core_heap \<Rightarrow> addr \<times> core_heap" where
  "core_get_bytecode cm h =
     (case cells h cm of
        Some (Compiler s c code) \<Rightarrow> alloc (Bytecode code c) h
      | _ \<Rightarrow> alloc (Bytecode [] 0) h)"

definition core_vm_new_with_globals ::
  "addr \<Rightarrow> int object list \<Rightarrow> core_heap \<Rightarrow> addr \<times> core_heap" where
  "core_vm_new_with_globals code g h =
     (case cells h code of
        Some (Bytecode is c) \<Rightarrow> alloc (Machine is c g null_object) h
      | _ \<Rightarrow> alloc (Machine [] 0 g null_object) h)"

definition core_vm_run :: "addr \<Rightarrow> core_heap \<Rightarrow> int \<times> core_heap" where
  "core_vm_run m h =
     (case cells h m of
        Some (Machine is c g lp) \<Rightarrow>
          (let (err, r) = run_instructions (pool_at c h) is
                 \<lparr>vm_stack = [], vm_slots = g, vm_last_popped = lp\<rparr>
           in (runtime_error_code err,
               h\<lparr>cells := (cells h)(m \<mapsto> Machine is c (vm_slots r) (vm_last_popped r))\<rparr>))
      | _ \<Rightarrow> (runtime_error_code (Some Malformed_program), h))"

text \<open>
  The parser is outside the spec's core, and its sources are not given either: this
  one knows the lines that the evaluations below submit, with the syntax trees the
  language gives them, and counts one error on any other line.
\<close>

definition parse_line :: "string \<Rightarrow> statement list option" where
  "parse_line s =
     (if s = ''let x = 5;\<newline>'' then Some [Let_statement ''x'' (Integer_literal 5)]
      else if s = ''x;\<newline>'' then Some [Expression_statement (Identifier ''x'')]
      else if s = ''let x = 1 / 0;\<newline>'' then
        Some [Let_statement ''x''
                (Infix_expression Op_slash (Integer_literal 1) (Integer_literal 0))]
      else if s = ''let x = 2; y;\<newline>'' then
        Some [Let_statement ''x'' (Integer_literal 2), Expression_statement (Identifier ''y'')]
      else if s = ''let x = 5; let y = 10; x + y;\<newline>'' then
        Some [Let_statement ''x'' (Integer_literal 5), Let_statement ''y'' (Integer_literal 10),
              Expression_statement (Infix_expression Op_plus (Identifier ''x'') (Identifier ''y''))]
      else None)"

definition core_parse_program ::
  "string parser \<Rightarrow> core_heap \<Rightarrow> (addr \<times> string parser) \<times> core_heap" where
  "core_parse_program p h =
     (case parse_line (parser_rest p) of
        None \<Rightarrow> ((0, p\<lparr>errors := 1, error_messages := [''no parse'']\<rparr>), h)
      | Some prog \<Rightarrow> (let (a, h1) = alloc (Program prog) h in ((a, p), h1)))"

definition core_env :: "(core_heap, string, int) env" where
  "core_env =
     \<lparr>BUFSIZ = 8192, GLOBALS_SIZE = 512,
      files = (\<lambda>n. None),
      fresh = (\<lambda>i. NUL),
      symbol_table_new = alloc (Table (push_scope [])),
      make_object_list = (\<lambda>n. alloc (Object_list [])),
      new_parser = (\<lambda>l. \<lparr>errors = 0, error_messages = [], parser_rest = c_string (input l)\<rparr>),
      parse_program = core_parse_program,
      compiler_new = (\<lambda>h. let (s, h1) = alloc (Table (push_scope [])) h;
                               (c, h2) = alloc (Object_list []) h1
                           in alloc (Compiler s c []) h2),
      compiler_new_with_state = (\<lambda>s c. alloc (Compiler s c [])),
      compile_program = core_compile_program,
      compiler_error_str = (\<lambda>e. if e = 1 then ''unknown identifier'' else ''malformed program''),
      get_bytecode = core_get_bytecode,
      vm_new = (\<lambda>code. core_vm_new_with_globals code (replicate 512 null_object)),
      vm_new_with_globals = core_vm_new_with_globals,
      vm_run = core_vm_run,
      vm_stack_last_popped =
        (\<lambda>m h. case cells h m of Some (Machine is c g lp) \<Rightarrow> lp | _ \<Rightarrow> null_object),
      vm_globals = (\<lambda>m h. case cells h m of Some (Machine is c g lp) \<Rightarrow> g | _ \<Rightarrow> []),
      free_program = release,
      compiler_free = release,
      vm_free = release,
      free = release\<rparr>"

definition core_world :: "(core_heap, int) world" where
  "core_world = \<lparr>heap = \<lparr>cells = Map.empty, brk = 0\<rparr>, out = [], calls = []\<rparr>"

definition core_state :: "(core_heap, int) repl_state" where
  \<comment> \<open>the REPL before its first pass, its array \<^verbatim>\<open>globals\<close> holding \<open>Null\<close> in every slot\<close>
  "core_state = repl_init core_env (replicate 512 null_object) core_world"

definition core_run :: "string option list \<Rightarrow> (core_heap, int) repl_state" where
  \<comment> \<open>the REPL on this core after its first passes, by what \<^verbatim>\<open>fgets\<close> did in each\<close>
  "core_run rs = repl_steps core_env rs core_state"

definition slot_of :: "addr \<Rightarrow> core_heap \<Rightarrow> string \<Rightarrow> nat option" where
  \<comment> \<open>the slot of the globals array that the symbol table at \<open>a\<close> gives a name\<close>
  "slot_of a h n = map_option index (fst (resolve n (table_at a h)))"



section \<open>Properties of the lexer\<close>

lemma terminated_rd: "terminated l \<Longrightarrow> \<exists>c. rd (input l) (pos l) = Inr c"
  by (cases "pos l < length (input l)") (auto simp: terminated_def rd_def)

lemma terminated_next:
  assumes "terminated l" "rd (input l) (pos l) = Inr c" "c \<noteq> NUL"
  shows "terminated (next_char l)"
proof -
  from assms(2) have lt: "pos l < length (input l)" and c: "c = input l ! pos l"
    by (auto simp: rd_def split: if_splits)
  have "drop (pos l) (input l) = c # drop (Suc (pos l)) (input l)"
    using lt c by (simp add: Cons_nth_drop_Suc)
  with assms(1,3) show ?thesis by (auto simp: terminated_def next_char_def)
qed

lemma not_isspace_NUL: "isspace c \<Longrightarrow> c \<noteq> NUL"
  by (auto simp: isspace_def)

lemma skip_whitespace_returns:
  "(ch \<noteq> NUL \<longrightarrow> terminated l) \<Longrightarrow>
   \<exists>l' ch'. skip_whitespace l ch = Inr (l', ch') \<and> (ch' \<noteq> NUL \<longrightarrow> terminated l')"
proof (induction l ch rule: skip_whitespace.induct)
  case (1 l ch)
  show ?case
  proof (cases "isspace ch")
    case False
    with "1.prems" show ?thesis by (subst skip_whitespace.simps) simp
  next
    case True
    define l1 where "l1 = (if ch = CHR ''\<newline>''
                   then l\<lparr>cur_lineno := cur_lineno l + 1, cur_linepos := 0\<rparr> else l)"
    from True "1.prems" have "terminated l" by (simp add: not_isspace_NUL)
    then have t1: "terminated l1" by (simp add: l1_def terminated_def)
    from terminated_rd[OF t1] obtain c where c: "rd (input l1) (pos l1) = Inr c" by blast
    have "c \<noteq> NUL \<longrightarrow> terminated (next_char l1)"
      using terminated_next[OF t1 c] by blast
    from "1.IH"[OF True l1_def c this] obtain l' ch' where
      "skip_whitespace (next_char l1) c = Inr (l', ch')" "ch' \<noteq> NUL \<longrightarrow> terminated l'"
      by blast
    with True c show ?thesis
      by (subst skip_whitespace.simps) (simp add: l1_def[symmetric] Let_def)
  qed
qed

lemma skip_comment_returns:
  "terminated l \<Longrightarrow> \<exists>l'. skip_comment l = Inr l' \<and> terminated l'"
proof (induction l rule: skip_comment.induct)
  case (1 l)
  from terminated_rd[OF "1.prems"] obtain c where c: "rd (input l) (pos l) = Inr c" by blast
  show ?case
  proof (cases "c \<noteq> CHR ''\<newline>'' \<and> c \<noteq> NUL")
    case True
    then have "terminated (next_char l)" using terminated_next[OF "1.prems" c] by blast
    from "1.IH"[OF c True this] c True show ?thesis
      by (subst skip_comment.simps) simp
  next
    case False
    with c "1.prems" show ?thesis by (subst skip_comment.simps) auto
  qed
qed

lemma string_loop_returns:
  "terminated l \<Longrightarrow> \<exists>l'. string_loop l = Inr l'"
proof (induction l rule: string_loop.induct)
  case (1 l)
  from terminated_rd[OF "1.prems"] obtain c where c: "rd (input l) (pos l) = Inr c" by blast
  then have lt: "pos l < length (input l)" by (auto simp: rd_def split: if_splits)
  then have "pos (next_char l) - 2 < length (input (next_char l))"
    by (simp add: next_char_def)
  then obtain p where p: "rd (input (next_char l)) (pos (next_char l) - 2) = Inr p"
    by (simp add: rd_def)
  show ?case
  proof (cases "c = NUL")
    case True
    with c show ?thesis by (subst string_loop.simps) simp
  next
    case False
    then have t: "terminated (next_char l)" using terminated_next[OF "1.prems" c] by blast
    show ?thesis
    proof (cases "c = CHR 0x22")
      case q: True
      show ?thesis
      proof (cases "p \<noteq> CHR 0x5C")
        case True
        with c p q False show ?thesis by (subst string_loop.simps) (simp add: Let_def)
      next
        case b: False
        from "1.IH"(1)[OF c refl False q p] b t
        obtain l' where "string_loop (next_char l) = Inr l'" by blast
        with c p q False b show ?thesis by (subst string_loop.simps) (simp add: Let_def)
      qed
    next
      case nq: False
      from "1.IH"(2)[OF c refl False nq t]
      obtain l' where "string_loop (next_char l) = Inr l'" by blast
      with c nq False show ?thesis by (subst string_loop.simps) (simp add: Let_def)
    qed
  qed
qed


lemma c_string_terminate:
  assumes "i < length lit" "\<forall>j<i. lit ! j \<noteq> NUL"
  shows "c_string (lit[i := NUL]) = take i lit"
proof -
  have "takeWhile (\<lambda>c. c \<noteq> NUL) (lit[i := NUL]) = take i (lit[i := NUL])"
    using assms by (intro takeWhile_eq_take_P_nth) simp_all
  then show ?thesis by (simp add: c_string_def)
qed

lemma letter_or_digit_not_NUL: "is_letter c \<or> isdigit c \<Longrightarrow> c \<noteq> NUL"
  by (auto simp: is_letter_def isdigit_def)

lemma ident_loop_returns:
  "M \<le> 64 \<Longrightarrow> length lit = 64 \<Longrightarrow> (ch \<noteq> NUL \<longrightarrow> terminated l) \<Longrightarrow> i \<le> M - 1 \<Longrightarrow>
   \<forall>j<i. lit ! j \<noteq> NUL \<Longrightarrow>
   \<exists>l' lit' ch' i'. ident_loop M l lit ch i = Inr (l', lit', ch', i') \<and> length lit' = 64
      \<and> i' \<le> M - 1 \<and> (\<forall>j<i'. lit' ! j \<noteq> NUL)"
proof (induction M l lit ch i rule: ident_loop.induct)
  case (1 M l lit ch i)
  show ?case
  proof (cases "(is_letter ch \<or> isdigit ch) \<and> i + 1 < M")
    case False
    with "1.prems" show ?thesis by (subst ident_loop.simps) auto
  next
    case True
    then have nz: "ch \<noteq> NUL" using letter_or_digit_not_NUL by blast
    from True "1.prems" have il: "i < length lit" by simp
    from nz "1.prems" have tl: "terminated l" by simp
    from terminated_rd[OF tl] obtain c where c: "rd (input l) (pos l) = Inr c" by blast
    have a: "c \<noteq> NUL \<longrightarrow> terminated (next_char l)" using terminated_next[OF tl c] by blast
    have b: "\<forall>j<i + 1. lit[i := ch] ! j \<noteq> NUL"
      using "1.prems"(5) nz il by (auto simp: nth_list_update)
    from True have i1: "i + 1 \<le> M - 1" by linarith
    from "1.IH"[OF True il c "1.prems"(1) _ a i1 b] "1.prems"(2)
    obtain l' lit' ch' i' where
      "ident_loop M (next_char l) (lit[i := ch]) c (i + 1) = Inr (l', lit', ch', i')"
      "length lit' = 64" "i' \<le> M - 1" "\<forall>j<i'. lit' ! j \<noteq> NUL"
      by auto
    with True il c show ?thesis by (subst ident_loop.simps) simp
  qed
qed

lemma digit_loop_returns:
  "M \<le> 64 \<Longrightarrow> length lit = 64 \<Longrightarrow> (ch \<noteq> NUL \<longrightarrow> terminated l) \<Longrightarrow> i \<le> M - 1 \<Longrightarrow>
   \<forall>j<i. lit ! j \<noteq> NUL \<Longrightarrow>
   \<exists>l' lit' ch' i'. digit_loop M l lit ch i = Inr (l', lit', ch', i') \<and> length lit' = 64
      \<and> i' \<le> M - 1 \<and> (\<forall>j<i'. lit' ! j \<noteq> NUL)"
proof (induction M l lit ch i rule: digit_loop.induct)
  case (1 M l lit ch i)
  show ?case
  proof (cases "isdigit ch \<and> i + 1 < M")
    case False
    with "1.prems" show ?thesis by (subst digit_loop.simps) auto
  next
    case True
    then have nz: "ch \<noteq> NUL" using letter_or_digit_not_NUL by blast
    from True "1.prems" have il: "i < length lit" by simp
    from nz "1.prems" have tl: "terminated l" by simp
    from terminated_rd[OF tl] obtain c where c: "rd (input l) (pos l) = Inr c" by blast
    have a: "c \<noteq> NUL \<longrightarrow> terminated (next_char l)" using terminated_next[OF tl c] by blast
    have b: "\<forall>j<i + 1. lit[i := ch] ! j \<noteq> NUL"
      using "1.prems"(5) nz il by (auto simp: nth_list_update)
    from True have i1: "i + 1 \<le> M - 1" by linarith
    from "1.IH"[OF True il c "1.prems"(1) _ a i1 b] "1.prems"(2)
    obtain l' lit' ch' i' where
      "digit_loop M (next_char l) (lit[i := ch]) c (i + 1) = Inr (l', lit', ch', i')"
      "length lit' = 64" "i' \<le> M - 1" "\<forall>j<i'. lit' ! j \<noteq> NUL"
      by auto
    with True il c show ?thesis by (subst digit_loop.simps) simp
  qed
qed

lemma get_ident_literal: "literal (get_ident t) = literal t"
  by (simp add: get_ident_def Let_def)

lemma default_case_returns:
  assumes "M \<le> 64" "length (literal t) = 64" "ch \<noteq> NUL \<longrightarrow> terminated l"
  shows "\<exists>l' t'. default_case M l t ch = Inr (l', t') \<and> good_token M t'"
proof -
  consider (letter) "is_letter ch" | (digit) "\<not> is_letter ch" "isdigit ch"
    | (other) "\<not> is_letter ch" "\<not> isdigit ch" by blast
  then show ?thesis
  proof cases
    case letter
    from ident_loop_returns[OF assms(1,2,3), of 0]
    obtain l1 lit ch1 i where r: "ident_loop M l (literal t) ch 0 = Inr (l1, lit, ch1, i)"
      and len: "length lit = 64" and i: "i \<le> M - 1" and nz: "\<forall>j<i. lit ! j \<noteq> NUL"
      by auto
    from i assms(1) len have il: "i < length lit" by simp
    have "length (c_string (lit[i := NUL])) \<le> M - 1"
      using c_string_terminate[OF il nz] i by simp
    with letter r il len show ?thesis
      by (simp add: default_case_def wr_def good_token_def get_ident_literal)
  next
    case digit
    from digit_loop_returns[OF assms(1,2,3), of 0]
    obtain l1 lit ch1 i where r: "digit_loop M l (literal t) ch 0 = Inr (l1, lit, ch1, i)"
      and len: "length lit = 64" and i: "i \<le> M - 1" and nz: "\<forall>j<i. lit ! j \<noteq> NUL"
      by auto
    from i assms(1) len have il: "i < length lit" by simp
    have "length (c_string (lit[i := NUL])) \<le> M - 1"
      using c_string_terminate[OF il nz] i by simp
    with digit r il len show ?thesis
      by (simp add: default_case_def wr_def good_token_def)
  next
    case other
    with assms(2) show ?thesis
      by (simp add: default_case_def one_char_def good_token_def word_type_def)
  qed
qed

lemma c_string_zeros: "c_string (replicate n NUL) = []"
  by (cases n) (simp_all add: c_string_def)

lemma one_char_good:
  "length (literal t) = 64 \<Longrightarrow> \<not> word_type ty \<Longrightarrow> good_token M (one_char t ty ch)"
  by (simp add: one_char_def good_token_def)

lemma two_char_returns:
  assumes "terminated l" "length (literal t) = 64" "\<not> word_type ty2" "\<not> word_type ty1"
  shows "\<exists>l' t'. two_char l t ch c2 ty2 ty1 = Inr (l', t') \<and> good_token M t'"
proof -
  from terminated_rd[OF assms(1)] obtain c where "rd (input l) (pos l) = Inr c" by blast
  with assms(2-) show ?thesis
    by (simp add: two_char_def one_char_def strcpy_literal_def good_token_def)
qed

lemma cmp_char_returns:
  assumes "terminated l" "length (literal t) = 64" "\<not> word_type ty2" "\<not> word_type ty1"
  shows "\<exists>l' t'. cmp_char l t ch ty2 ty1 = Inr (l', t') \<and> good_token M t'"
proof -
  from terminated_rd[OF assms(1)] obtain c where "rd (input l) (pos l) = Inr c" by blast
  with assms(2-) show ?thesis
    by (simp add: cmp_char_def strcpy_literal_def good_token_def)
qed

lemma double_char_returns:
  assumes "terminated l" "literal t = replicate 64 NUL" "\<not> word_type ty"
  shows "\<exists>l' t'. double_char l t ch ty = Inr (l', t') \<and> good_token M t'"
proof -
  from terminated_rd[OF assms(1)] obtain c where "rd (input l) (pos l) = Inr c" by blast
  with assms(2-) show ?thesis
    by (simp add: double_char_def strcpy_literal_def good_token_def c_string_zeros)
qed


lemma gettoken_returns:
  "M \<le> 64 \<Longrightarrow> terminated l \<Longrightarrow> \<exists>l' t'. gettoken M l t = Inr (l', t') \<and> good_token M t'"
proof (induction M l t rule: gettoken.induct)
  case (1 M l t)
  from terminated_rd[OF "1.prems"(2)] obtain ch0 where ch0: "rd (input l) (pos l) = Inr ch0"
    by blast
  have "ch0 \<noteq> NUL \<longrightarrow> terminated (next_char l)"
    using terminated_next[OF "1.prems"(2) ch0] by blast
  from skip_whitespace_returns[OF this] obtain l1 ch where
    ws: "skip_whitespace (next_char l) ch0 = Inr (l1, ch)" and inv: "ch \<noteq> NUL \<longrightarrow> terminated l1"
    by blast
  define t1 where
    "t1 = t\<lparr>literal := replicate 64 NUL, line := cur_lineno l1, tok_pos := cur_linepos l1\<rparr>"
  have lit: "literal t1 = replicate 64 NUL" and len: "length (literal t1) = 64"
    by (simp_all add: t1_def)
  show ?case
  proof (cases "ch = CHR ''/''")
    case True
    with inv have tl1: "terminated l1" by simp
    from terminated_rd[OF tl1] obtain ch_next where n: "rd (input l1) (pos l1) = Inr ch_next"
      by blast
    show ?thesis
    proof (cases "ch_next = CHR ''/''")
      case c: True
      from skip_comment_returns[OF tl1] obtain l2 where
        l2: "skip_comment l1 = Inr l2" and tl2: "terminated l2" by blast
      have "\<exists>l' t'. gettoken M l2 t1 = Inr (l', t') \<and> good_token M t'"
        by (rule "1.IH"[OF ch0 ws refl t1_def _ _ _ _ _ _ _ _ _ True n c l2 "1.prems"(1) tl2])
           (simp_all add: True)
      with True ch0 ws n c l2 show ?thesis
        by (subst gettoken.simps) (simp add: t1_def[symmetric] Let_def)
    next
      case False
      have "good_token M (one_char t1 TOKEN_SLASH ch)"
        by (rule one_char_good[OF len]) (simp add: word_type_def)
      with True ch0 ws n False show ?thesis
        by (subst gettoken.simps) (simp add: t1_def[symmetric] Let_def)
    qed
  next
    case False
    have str: "ch = CHR 0x22 \<Longrightarrow> \<exists>l2. string_loop l1 = Inr l2"
      using inv string_loop_returns by simp
    have nw: "\<not> word_type TOKEN_EQ" "\<not> word_type TOKEN_ASSIGN" "\<not> word_type TOKEN_NOT_EQ"
      "\<not> word_type TOKEN_BANG" "\<not> word_type TOKEN_LTE" "\<not> word_type TOKEN_LT"
      "\<not> word_type TOKEN_GTE" "\<not> word_type TOKEN_GT" "\<not> word_type TOKEN_OR"
      "\<not> word_type TOKEN_AND"
      by (simp_all add: word_type_def)
    have oc: "\<And>ty c. \<not> word_type ty \<Longrightarrow> good_token M (one_char t1 ty c)"
      by (rule one_char_good[OF len])
    have two: "\<And>c c2 ty2 ty1. terminated l1 \<Longrightarrow> \<not> word_type ty2 \<Longrightarrow> \<not> word_type ty1 \<Longrightarrow>
        \<exists>l' t'. two_char l1 t1 c c2 ty2 ty1 = Inr (l', t') \<and> good_token M t'"
      using two_char_returns[OF _ len] by blast
    have cmp: "\<And>c ty2 ty1. terminated l1 \<Longrightarrow> \<not> word_type ty2 \<Longrightarrow> \<not> word_type ty1 \<Longrightarrow>
        \<exists>l' t'. cmp_char l1 t1 c ty2 ty1 = Inr (l', t') \<and> good_token M t'"
      using cmp_char_returns[OF _ len] by blast
    have dbl: "\<And>c ty. terminated l1 \<Longrightarrow> \<not> word_type ty \<Longrightarrow>
        \<exists>l' t'. double_char l1 t1 c ty = Inr (l', t') \<and> good_token M t'"
      using double_char_returns[OF _ lit] by blast
    have dflt: "\<exists>l' t'. default_case M l1 t1 ch = Inr (l', t') \<and> good_token M t'"
      by (rule default_case_returns[OF "1.prems"(1) len inv])
    from False ch0 ws inv show ?thesis
      apply (subst gettoken.simps)
      apply (simp add: t1_def[symmetric] Let_def)
      apply (intro conjI impI two cmp dbl dflt oc nw)
      apply (auto simp: good_token_def word_type_def t1_def dest!: str)
      done
  qed
qed

lemma rd_append: "rd (pre @ c # rest) (length pre) = Inr c"
  by (simp add: rd_def)

lemma take_Suc_update:
  "i < length lit \<Longrightarrow> take (Suc i) (lit[i := ch]) = take i lit @ [ch]"
  by (simp add: take_Suc_conv_app_nth)

lemma ident_loop_run:
  "k = M - 1 - i \<Longrightarrow> i \<le> M - 1 \<Longrightarrow> M \<le> 64 \<Longrightarrow> length lit = 64 \<Longrightarrow>
   input l = pre @ cs @ rest \<Longrightarrow> pos l = length pre \<Longrightarrow> k \<le> length cs \<Longrightarrow>
   \<forall>c\<in>set (ch # cs). is_letter c \<or> isdigit c \<Longrightarrow>
   \<exists>lit' ch'. ident_loop M l lit ch i =
       Inr (l\<lparr>pos := pos l + k, cur_linepos := cur_linepos l + k\<rparr>, lit', ch', M - 1)
     \<and> length lit' = 64 \<and> take (M - 1) lit' = take i lit @ take k (ch # cs)"
proof (induction k arbitrary: l lit ch i pre cs)
  case 0
  then have "i = M - 1" by simp
  with 0 have "\<not> i + 1 < M" by simp
  with 0 \<open>i = M - 1\<close> show ?case by (subst ident_loop.simps) simp
next
  case (Suc k)
  then have lt: "i + 1 < M" by linarith
  from Suc.prems obtain c cs' where cs: "cs = c # cs'" by (cases cs) auto
  have c: "rd (input l) (pos l) = Inr c"
    using Suc.prems(5,6) cs by (simp add: rd_append)
  have il: "i < length lit" using lt Suc.prems by simp
  have a: "input (next_char l) = (pre @ [c]) @ cs' @ rest" "pos (next_char l) = length (pre @ [c])"
    using Suc.prems(5,6) cs by (simp_all add: next_char_def)
  have "\<exists>lit' ch'. ident_loop M (next_char l) (lit[i := ch]) c (i + 1) =
       Inr ((next_char l)\<lparr>pos := pos (next_char l) + k,
              cur_linepos := cur_linepos (next_char l) + k\<rparr>, lit', ch', M - 1)
     \<and> length lit' = 64 \<and> take (M - 1) lit' = take (i + 1) (lit[i := ch]) @ take k (c # cs')"
    using Suc.prems cs lt by (intro Suc.IH[OF _ _ _ _ a]) auto
  then obtain lit' ch' where r: "ident_loop M (next_char l) (lit[i := ch]) c (i + 1) =
       Inr ((next_char l)\<lparr>pos := pos (next_char l) + k,
              cur_linepos := cur_linepos (next_char l) + k\<rparr>, lit', ch', M - 1)"
    and len: "length lit' = 64"
    and tk: "take (M - 1) lit' = take (i + 1) (lit[i := ch]) @ take k (c # cs')"
    by blast
  have "ident_loop M l lit ch i = ident_loop M (next_char l) (lit[i := ch]) c (i + 1)"
    using lt il c Suc.prems(8) by (subst ident_loop.simps) simp
  with r len tk cs il show ?case
    by (simp add: next_char_def take_Suc_update)
qed

lemma digit_loop_run:
  "k = M - 1 - i \<Longrightarrow> i \<le> M - 1 \<Longrightarrow> M \<le> 64 \<Longrightarrow> length lit = 64 \<Longrightarrow>
   input l = pre @ cs @ rest \<Longrightarrow> pos l = length pre \<Longrightarrow> k \<le> length cs \<Longrightarrow>
   \<forall>c\<in>set (ch # cs). isdigit c \<Longrightarrow>
   \<exists>lit' ch'. digit_loop M l lit ch i =
       Inr (l\<lparr>pos := pos l + k, cur_linepos := cur_linepos l + k\<rparr>, lit', ch', M - 1)
     \<and> length lit' = 64 \<and> take (M - 1) lit' = take i lit @ take k (ch # cs)"
proof (induction k arbitrary: l lit ch i pre cs)
  case 0
  then have "i = M - 1" by simp
  with 0 have "\<not> i + 1 < M" by simp
  with 0 \<open>i = M - 1\<close> show ?case by (subst digit_loop.simps) simp
next
  case (Suc k)
  then have lt: "i + 1 < M" by linarith
  from Suc.prems obtain c cs' where cs: "cs = c # cs'" by (cases cs) auto
  have c: "rd (input l) (pos l) = Inr c"
    using Suc.prems(5,6) cs by (simp add: rd_append)
  have il: "i < length lit" using lt Suc.prems by simp
  have a: "input (next_char l) = (pre @ [c]) @ cs' @ rest" "pos (next_char l) = length (pre @ [c])"
    using Suc.prems(5,6) cs by (simp_all add: next_char_def)
  have "\<exists>lit' ch'. digit_loop M (next_char l) (lit[i := ch]) c (i + 1) =
       Inr ((next_char l)\<lparr>pos := pos (next_char l) + k,
              cur_linepos := cur_linepos (next_char l) + k\<rparr>, lit', ch', M - 1)
     \<and> length lit' = 64 \<and> take (M - 1) lit' = take (i + 1) (lit[i := ch]) @ take k (c # cs')"
    using Suc.prems cs lt by (intro Suc.IH[OF _ _ _ _ a]) auto
  then obtain lit' ch' where r: "digit_loop M (next_char l) (lit[i := ch]) c (i + 1) =
       Inr ((next_char l)\<lparr>pos := pos (next_char l) + k,
              cur_linepos := cur_linepos (next_char l) + k\<rparr>, lit', ch', M - 1)"
    and len: "length lit' = 64"
    and tk: "take (M - 1) lit' = take (i + 1) (lit[i := ch]) @ take k (c # cs')"
    by blast
  have "digit_loop M l lit ch i = digit_loop M (next_char l) (lit[i := ch]) c (i + 1)"
    using lt il c Suc.prems(8) by (subst digit_loop.simps) simp
  with r len tk cs il show ?case
    by (simp add: next_char_def take_Suc_update)
qed

lemma gettoken_default:
  assumes "rd (input l) (pos l) = Inr ch" "is_letter ch \<or> isdigit ch"
  shows "gettoken M l t = default_case M (next_char l)
           (t\<lparr>literal := replicate 64 NUL, line := cur_lineno (next_char l),
              tok_pos := cur_linepos (next_char l)\<rparr>) ch"
proof -
  have ns: "\<not> isspace ch" using assms(2) by (auto simp: isspace_def is_letter_def isdigit_def)
  have ws: "skip_whitespace (next_char l) ch = Inr (next_char l, ch)"
    using ns by (subst skip_whitespace.simps) simp
  have ne: "ch \<notin> {CHR ''='', CHR '';'', CHR '':'', CHR ''('', CHR '')'', CHR '','', CHR ''+'',
      CHR ''-'', CHR ''!'', CHR ''/'', CHR ''*'', CHR ''<'', CHR ''>'', CHR ''{'', CHR ''}'',
      CHR ''['', CHR '']'', CHR ''%'', CHR ''|'', CHR ''&'', CHR 0x22, NUL}"
    using assms(2) by (auto simp: is_letter_def isdigit_def)
  show ?thesis
    using assms(1) ws ne by (subst gettoken.simps) (simp add: Let_def)
qed


lemma get_ident_word: "word_type (type (get_ident t))"
  by (simp add: get_ident_def Let_def word_type_def)

lemma c_string_take:
  assumes "n < length lit" "take n lit = take n run" "n \<le> length run" "NUL \<notin> set run"
  shows "c_string (lit[n := NUL]) = take n run"
proof -
  have "\<forall>j<n. lit ! j \<noteq> NUL"
  proof (intro allI impI)
    fix j assume j: "j < n"
    then have "lit ! j = take n lit ! j" by simp
    also have "\<dots> = run ! j" using j assms(2) by simp
    also have "\<dots> \<in> set run" using j assms(3) by simp
    finally show "lit ! j \<noteq> NUL" using assms(4) by metis
  qed
  from c_string_terminate[OF assms(1) this] assms(2) show ?thesis by simp
qed

lemma gettoken_long_run:
  assumes M: "M \<le> 64" and inp: "input l = pre @ run @ rest" and p: "pos l = length pre"
    and long: "M - 1 < length run"
    and run: "(is_letter (hd run) \<and> (\<forall>c\<in>set run. is_letter c \<or> isdigit c))
              \<or> (\<forall>c\<in>set run. isdigit c)"
  shows "\<exists>t'. gettoken M l t =
            Inr (l\<lparr>pos := pos l + (M - 1), cur_linepos := cur_linepos l + (M - 1)\<rparr>, t')
          \<and> word_type (type t') \<and> c_string (literal t') = take (M - 1) run"
proof -
  from long obtain ch cs where r: "run = ch # cs" by (cases run) auto
  have ld: "\<forall>c\<in>set run. is_letter c \<or> isdigit c" using run by blast
  then have nz: "NUL \<notin> set run" using letter_or_digit_not_NUL by blast
  have ch: "rd (input l) (pos l) = Inr ch" using inp p r by (simp add: rd_append)
  define t1 where "t1 = t\<lparr>literal := replicate 64 NUL, line := cur_lineno (next_char l),
              tok_pos := cur_linepos (next_char l)\<rparr>"
  have g: "gettoken M l t = default_case M (next_char l) t1 ch"
    unfolding t1_def using ch ld r by (intro gettoken_default) auto
  have a: "input (next_char l) = (pre @ [ch]) @ cs @ rest"
    "pos (next_char l) = length (pre @ [ch])"
    using inp p r by (simp_all add: next_char_def)
  have k: "M - 1 \<le> length cs" using long r by simp
  have lt: "M - 1 < 64" using M by simp
  have pc: "prev_char ((next_char l)\<lparr>pos := pos (next_char l) + (M - 1),
                  cur_linepos := cur_linepos (next_char l) + (M - 1)\<rparr>)
              = l\<lparr>pos := pos l + (M - 1), cur_linepos := cur_linepos l + (M - 1)\<rparr>"
    by (simp add: prev_char_def next_char_def)
  show ?thesis
  proof (cases "is_letter ch")
    case True
    have "\<exists>lit' ch'. ident_loop M (next_char l) (literal t1) ch 0 =
       Inr ((next_char l)\<lparr>pos := pos (next_char l) + (M - 1),
              cur_linepos := cur_linepos (next_char l) + (M - 1)\<rparr>, lit', ch', M - 1)
       \<and> length lit' = 64 \<and> take (M - 1) lit' = take 0 (literal t1) @ take (M - 1) (ch # cs)"
      using ld r M k by (intro ident_loop_run[OF _ _ _ _ a]) (simp_all add: t1_def)
    then obtain lit' ch' where il: "ident_loop M (next_char l) (literal t1) ch 0 =
       Inr ((next_char l)\<lparr>pos := pos (next_char l) + (M - 1),
              cur_linepos := cur_linepos (next_char l) + (M - 1)\<rparr>, lit', ch', M - 1)"
      and len: "length lit' = 64" and tk: "take (M - 1) lit' = take (M - 1) run"
      using r by auto
    have cs: "c_string (lit'[M - 1 := NUL]) = take (M - 1) run"
      using lt len tk long nz by (intro c_string_take) simp_all
    show ?thesis
      unfolding g using True il len lt cs pc
      by (simp add: default_case_def wr_def get_ident_word get_ident_literal)
  next
    case False
    with run r have dg: "\<forall>c\<in>set run. isdigit c" by auto
    have "\<exists>lit' ch'. digit_loop M (next_char l) (literal t1) ch 0 =
       Inr ((next_char l)\<lparr>pos := pos (next_char l) + (M - 1),
              cur_linepos := cur_linepos (next_char l) + (M - 1)\<rparr>, lit', ch', M - 1)
       \<and> length lit' = 64 \<and> take (M - 1) lit' = take 0 (literal t1) @ take (M - 1) (ch # cs)"
      using dg r M k by (intro digit_loop_run[OF _ _ _ _ a]) (simp_all add: t1_def)
    then obtain lit' ch' where il: "digit_loop M (next_char l) (literal t1) ch 0 =
       Inr ((next_char l)\<lparr>pos := pos (next_char l) + (M - 1),
              cur_linepos := cur_linepos (next_char l) + (M - 1)\<rparr>, lit', ch', M - 1)"
      and len: "length lit' = 64" and tk: "take (M - 1) lit' = take (M - 1) run"
      using r by auto
    have cs: "c_string (lit'[M - 1 := NUL]) = take (M - 1) run"
      using lt len tk long nz by (intro c_string_take) simp_all
    from dg r have "isdigit ch" by simp
    then show ?thesis
      unfolding g using False il len lt cs pc
      by (simp add: default_case_def wr_def word_type_def)
  qed
qed

text \<open>
  Claim C10. Let \<^verbatim>\<open>MAX_IDENT_LENGTH\<close> be at most 64. On a NUL-terminated input
  \<open>gettoken\<close> returns without leaving the input or the 64-byte \<open>literal\<close>, and the
  literal of an identifier, keyword or integer token has at most
  \<^verbatim>\<open>MAX_IDENT_LENGTH - 1\<close> characters. On a run of letters and digits that starts
  with a letter, or a run of digits, that is longer than the limit, the token takes the
  first \<^verbatim>\<open>MAX_IDENT_LENGTH - 1\<close> characters and the lexer stands at the first
  character it did not take.
\<close>

theorem gettoken_literal_bounded:
  assumes "M \<le> 64"
  shows "(terminated l \<longrightarrow>
           (\<exists>l' t'. gettoken M l t = Inr (l', t') \<and> length (literal t') = 64
              \<and> (word_type (type t') \<longrightarrow> length (c_string (literal t')) \<le> M - 1)))
       \<and> (input l = pre @ run @ rest \<and> pos l = length pre \<and> M - 1 < length run
           \<and> ((is_letter (hd run) \<and> (\<forall>c\<in>set run. is_letter c \<or> isdigit c))
              \<or> (\<forall>c\<in>set run. isdigit c)) \<longrightarrow>
           (\<exists>t'. gettoken M l t =
              Inr (l\<lparr>pos := pos l + (M - 1), cur_linepos := cur_linepos l + (M - 1)\<rparr>, t')
              \<and> word_type (type t') \<and> c_string (literal t') = take (M - 1) run))"
  using gettoken_returns[OF assms, of l t] gettoken_long_run[OF assms, of l pre run rest t]
  by (simp add: good_token_def)

theorem gettoken_literal_bounded_witness:
  "(64::nat) \<le> 64
   \<and> terminated (new_lexer (replicate 70 (CHR ''a'') @ [NUL]))
   \<and> (\<exists>t'. gettoken 64 (new_lexer (replicate 70 (CHR ''a'') @ [NUL])) T0
          = Inr ((new_lexer (replicate 70 (CHR ''a'') @ [NUL]))\<lparr>pos := 63, cur_linepos := 63\<rparr>, t')
        \<and> length (literal t') = 64 \<and> word_type (type t')
        \<and> length (c_string (literal t')) \<le> 63
        \<and> c_string (literal t') = replicate 63 (CHR ''a''))"
  using gettoken_literal_bounded[where M = 64
      and l = "new_lexer (replicate 70 (CHR ''a'') @ [NUL])" and pre = "[]"
      and run = "replicate 70 (CHR ''a'')" and rest = "[NUL]" and t = T0]
  by (auto simp: terminated_def new_lexer_def is_letter_def)

lemma gettoken_token_irrelevant:
  "gettoken M l (t\<lparr>literal := a, line := b, tok_pos := c\<rparr>) = gettoken M l t"
proof -
  have e: "\<And>X Y Z. t\<lparr>literal := a, line := b, tok_pos := c, literal := X, line := Y, tok_pos := Z\<rparr>
      = t\<lparr>literal := X, line := Y, tok_pos := Z\<rparr>"
    by simp
  show ?thesis
    unfolding gettoken.simps[of M l t]
      gettoken.simps[of M l "t\<lparr>literal := a, line := b, tok_pos := c\<rparr>"] e
    by (rule refl)
qed

lemma skip_comment_run:
  "input l = pre @ body @ c # rest \<Longrightarrow> pos l = length pre \<Longrightarrow>
   c = CHR ''\<newline>'' \<or> c = NUL \<Longrightarrow> CHR ''\<newline>'' \<notin> set body \<Longrightarrow> NUL \<notin> set body \<Longrightarrow>
   skip_comment l =
     Inr (l\<lparr>pos := pos l + length body, cur_linepos := cur_linepos l + length body\<rparr>)"
proof (induction body arbitrary: l pre)
  case Nil
  then have "rd (input l) (pos l) = Inr c" by (simp add: rd_append)
  with Nil show ?case by (subst skip_comment.simps) auto
next
  case (Cons b body)
  then have b: "rd (input l) (pos l) = Inr b" by (simp add: rd_append)
  have "skip_comment (next_char l) = Inr ((next_char l)\<lparr>pos := pos (next_char l) + length body,
      cur_linepos := cur_linepos (next_char l) + length body\<rparr>)"
    using Cons.prems by (intro Cons.IH[of _ "pre @ [b]"]) (simp_all add: next_char_def)
  with b Cons.prems show ?case
    by (subst skip_comment.simps) (auto simp: next_char_def)
qed

lemma skip_whitespace_run:
  "input l = pre @ ws @ x # rest \<Longrightarrow> pos l = length pre + 1 \<Longrightarrow>
   \<forall>c\<in>set ws. isspace c \<Longrightarrow> \<not> isspace x \<Longrightarrow>
   skip_whitespace l (hd (ws @ [x])) =
     Inr (l\<lparr>pos := pos l + length ws,
            cur_lineno := cur_lineno l + count_list ws (CHR ''\<newline>''),
            cur_linepos := (if CHR ''\<newline>'' \<in> set ws
                            then length (takeWhile (\<lambda>c. c \<noteq> CHR ''\<newline>'') (rev ws)) + 1
                            else cur_linepos l + length ws)\<rparr>, x)"
proof (induction ws arbitrary: l pre)
  case Nil
  then show ?case by (subst skip_whitespace.simps) simp
next
  case (Cons w ws)
  define l1 where "l1 = (if w = CHR ''\<newline>''
                   then l\<lparr>cur_lineno := cur_lineno l + 1, cur_linepos := 0\<rparr> else l)"
  have w: "isspace w" using Cons.prems by simp
  have "input l1 = (pre @ [w]) @ ws @ x # rest" "pos l1 = length (pre @ [w])"
    using Cons.prems by (simp_all add: l1_def)
  then have r: "rd (input l1) (pos l1) = Inr (hd (ws @ [x]))"
    by (cases ws) (simp_all add: rd_def nth_append)
  have ih: "skip_whitespace (next_char l1) (hd (ws @ [x])) =
     Inr ((next_char l1)\<lparr>pos := pos (next_char l1) + length ws,
            cur_lineno := cur_lineno (next_char l1) + count_list ws (CHR ''\<newline>''),
            cur_linepos := (if CHR ''\<newline>'' \<in> set ws
                            then length (takeWhile (\<lambda>c. c \<noteq> CHR ''\<newline>'') (rev ws)) + 1
                            else cur_linepos (next_char l1) + length ws)\<rparr>, x)"
    using Cons.prems by (intro Cons.IH[of _ "pre @ [w]"]) (simp_all add: l1_def next_char_def)
  have "skip_whitespace l (hd ((w # ws) @ [x])) = skip_whitespace (next_char l1) (hd (ws @ [x]))"
    using w r by (subst skip_whitespace.simps) (simp add: l1_def[symmetric] Let_def)
  also note ih
  finally have step: "skip_whitespace l (hd ((w # ws) @ [x])) =
     Inr ((next_char l1)\<lparr>pos := pos (next_char l1) + length ws,
            cur_lineno := cur_lineno (next_char l1) + count_list ws (CHR ''\<newline>''),
            cur_linepos := (if CHR ''\<newline>'' \<in> set ws
                            then length (takeWhile (\<lambda>c. c \<noteq> CHR ''\<newline>'') (rev ws)) + 1
                            else cur_linepos (next_char l1) + length ws)\<rparr>, x)" .
  have tw1: "\<And>v. CHR ''\<newline>'' \<in> set ws \<Longrightarrow>
      takeWhile (\<lambda>c. c \<noteq> CHR ''\<newline>'') (rev ws @ [v])
      = takeWhile (\<lambda>c. c \<noteq> CHR ''\<newline>'') (rev ws)"
    by (rule takeWhile_append1[of "CHR ''\<newline>''"]) simp_all
  have tw2: "\<And>v. CHR ''\<newline>'' \<notin> set ws \<Longrightarrow>
      takeWhile (\<lambda>c. c \<noteq> CHR ''\<newline>'') (rev ws @ [v])
      = rev ws @ takeWhile (\<lambda>c. c \<noteq> CHR ''\<newline>'') [v]"
    by (rule takeWhile_append2) auto
  show ?case
    unfolding step by (auto simp: l1_def next_char_def tw1 tw2)
qed


lemma string_loop_frame:
  "string_loop l = Inr l' \<Longrightarrow> input l' = input l \<and> pos l \<le> pos l'"
proof (induction l rule: string_loop.induct)
  case (1 l)
  from "1.prems" obtain ch where ch: "rd (input l) (pos l) = Inr ch"
    by (subst (asm) string_loop.simps) (cases "rd (input l) (pos l)", simp_all)
  define l1 where "l1 = next_char l"
  have f: "input l1 = input l" "pos l \<le> pos l1" by (simp_all add: l1_def next_char_def)
  have u: "(if ch = NUL then Inr l1
           else if ch = CHR 0x22 then
             (case rd (input l1) (pos l1 - 2) of
                Inl e \<Rightarrow> Inl e
              | Inr p \<Rightarrow> if p \<noteq> CHR 0x5C then Inr l1 else string_loop l1)
           else string_loop l1) = Inr l'"
    unfolding l1_def using "1.prems" ch by (subst (asm) string_loop.simps) (simp add: Let_def)
  show ?case
  proof (cases "ch = NUL")
    case True
    with u f show ?thesis by simp
  next
    case nn: False
    show ?thesis
    proof (cases "ch = CHR 0x22")
      case True
      with u nn obtain p where p: "rd (input l1) (pos l1 - 2) = Inr p"
        by (cases "rd (input l1) (pos l1 - 2)") simp_all
      show ?thesis
      proof (cases "p \<noteq> CHR 0x5C")
        case True
        with u nn \<open>ch = CHR 0x22\<close> p f show ?thesis by simp
      next
        case False
        with u nn \<open>ch = CHR 0x22\<close> p have r: "string_loop l1 = Inr l'" by simp
        from "1.IH"(1)[OF ch l1_def nn \<open>ch = CHR 0x22\<close> p False r] f show ?thesis by simp
      qed
    next
      case False
      with u nn have r: "string_loop l1 = Inr l'" by simp
      from "1.IH"(2)[OF ch l1_def nn False r] f show ?thesis by simp
    qed
  qed
qed

lemma ident_loop_frame:
  "ident_loop M l lit ch i = Inr (l', lit', ch', i') \<Longrightarrow> input l' = input l \<and> pos l \<le> pos l'"
proof (induction M l lit ch i rule: ident_loop.induct)
  case (1 M l lit ch i)
  show ?case
  proof (cases "(is_letter ch \<or> isdigit ch) \<and> i + 1 < M")
    case False
    with "1.prems" show ?thesis by (subst (asm) ident_loop.simps) (auto split: if_splits)
  next
    case True
    with "1.prems" have il: "i < length lit"
      by (subst (asm) ident_loop.simps) (simp split: if_splits)
    with True "1.prems" obtain c where c: "rd (input l) (pos l) = Inr c"
      and r: "ident_loop M (next_char l) (lit[i := ch]) c (i + 1) = Inr (l', lit', ch', i')"
      by (subst (asm) ident_loop.simps) (simp split: sum.splits)
    from "1.IH"[OF True il c r] show ?thesis by (simp add: next_char_def)
  qed
qed

lemma digit_loop_frame:
  "digit_loop M l lit ch i = Inr (l', lit', ch', i') \<Longrightarrow> input l' = input l \<and> pos l \<le> pos l'"
proof (induction M l lit ch i rule: digit_loop.induct)
  case (1 M l lit ch i)
  show ?case
  proof (cases "isdigit ch \<and> i + 1 < M")
    case False
    with "1.prems" show ?thesis by (subst (asm) digit_loop.simps) (auto split: if_splits)
  next
    case True
    with "1.prems" have il: "i < length lit"
      by (subst (asm) digit_loop.simps) (simp split: if_splits)
    with True "1.prems" obtain c where c: "rd (input l) (pos l) = Inr c"
      and r: "digit_loop M (next_char l) (lit[i := ch]) c (i + 1) = Inr (l', lit', ch', i')"
      by (subst (asm) digit_loop.simps) (simp split: sum.splits)
    from "1.IH"[OF True il c r] show ?thesis by (simp add: next_char_def)
  qed
qed

lemma two_char_frame:
  "two_char l t ch c2 ty2 ty1 = Inr (l', t') \<Longrightarrow> input l' = input l \<and> pos l \<le> pos l'"
  by (auto simp: two_char_def next_char_def split: sum.splits if_splits)

lemma cmp_char_frame:
  "cmp_char l t ch ty2 ty1 = Inr (l', t') \<Longrightarrow> input l' = input l \<and> pos l \<le> pos l'"
  by (auto simp: cmp_char_def next_char_def split: sum.splits if_splits)

lemma double_char_frame:
  "double_char l t ch ty = Inr (l', t') \<Longrightarrow> input l' = input l \<and> pos l \<le> pos l'"
  by (auto simp: double_char_def next_char_def split: sum.splits if_splits)

lemma default_case_frame:
  "default_case M l t ch = Inr (l', t') \<Longrightarrow> input l' = input l \<and> pos l \<le> pos l' + 1"
  by (auto simp: default_case_def prev_char_def split: sum.splits if_splits prod.splits
      dest!: ident_loop_frame digit_loop_frame)

text \<open>
  What a call of \<open>gettoken\<close> that returns leaves of the lexer: the input is the same,
  and the position is at most one short of where the white space ended.
\<close>

lemma gettoken_frame:
  "gettoken M l t = Inr (l', t') \<Longrightarrow>
   input l' = input l
   \<and> (\<forall>c0 l1 ch. rd (input l) (pos l) = Inr c0 \<longrightarrow>
         skip_whitespace (next_char l) c0 = Inr (l1, ch) \<longrightarrow> pos l1 \<le> pos l' + 1)"
proof (induction M l t arbitrary: l' t' rule: gettoken.induct)
  case (1 M l t)
  from "1.prems" obtain ch0 where ch0: "rd (input l) (pos l) = Inr ch0"
    by (subst (asm) gettoken.simps) (cases "rd (input l) (pos l)", simp_all)
  from "1.prems" ch0 obtain l1 ch where ws: "skip_whitespace (next_char l) ch0 = Inr (l1, ch)"
    by (subst (asm) gettoken.simps) (cases "skip_whitespace (next_char l) ch0", auto)
  from skip_whitespace_frame[OF ws] have f1: "input l1 = input l" "pos l + 1 \<le> pos l1"
    by (simp_all add: next_char_def)
  define t1 where
    "t1 = t\<lparr>literal := replicate 64 NUL, line := cur_lineno l1, tok_pos := cur_linepos l1\<rparr>"
  have "input l' = input l1 \<and> pos l1 \<le> pos l' + 1"
  proof (cases "ch = CHR ''/''")
    case True
    from "1.prems" ch0 ws True obtain ch_next where n: "rd (input l1) (pos l1) = Inr ch_next"
      by (subst (asm) gettoken.simps) (cases "rd (input l1) (pos l1)", simp_all add: Let_def)
    show ?thesis
    proof (cases "ch_next = CHR ''/''")
      case c: True
      from "1.prems" ch0 ws True n c obtain l2 where l2: "skip_comment l1 = Inr l2"
        by (subst (asm) gettoken.simps) (cases "skip_comment l1", simp_all add: Let_def)
      from "1.prems" ch0 ws True n c l2 have g: "gettoken M l2 t1 = Inr (l', t')"
        by (subst (asm) gettoken.simps) (simp add: Let_def t1_def)
      have ih: "input l' = input l2
         \<and> (\<forall>c0 l1 ch. rd (input l2) (pos l2) = Inr c0 \<longrightarrow>
               skip_whitespace (next_char l2) c0 = Inr (l1, ch) \<longrightarrow> pos l1 \<le> pos l' + 1)"
        by (rule "1.IH"[OF ch0 ws refl t1_def _ _ _ _ _ _ _ _ _ True n c l2 g])
           (simp_all add: True)
      from g obtain d0 where d0: "rd (input l2) (pos l2) = Inr d0"
        by (subst (asm) gettoken.simps) (cases "rd (input l2) (pos l2)", simp_all)
      from g d0 obtain m1 dh where m1: "skip_whitespace (next_char l2) d0 = Inr (m1, dh)"
        by (subst (asm) gettoken.simps) (cases "skip_whitespace (next_char l2) d0", auto)
      from skip_whitespace_frame[OF m1] have "pos l2 + 1 \<le> pos m1" by (simp add: next_char_def)
      moreover from ih d0 m1 have "pos m1 \<le> pos l' + 1" by blast
      moreover from skip_comment_frame[OF l2] have "input l2 = input l1" "pos l1 \<le> pos l2"
        by simp_all
      ultimately show ?thesis using ih by simp
    next
      case False
      with "1.prems" ch0 ws True n show ?thesis
        by (subst (asm) gettoken.simps) (simp add: Let_def)
    qed
  next
    case False
    from "1.prems" ch0 ws False show ?thesis
      apply (subst (asm) gettoken.simps)
      apply (simp add: t1_def[symmetric] Let_def split: if_splits sum.splits)
      apply (auto dest!: two_char_frame cmp_char_frame double_char_frame string_loop_frame
          default_case_frame)
      done
  qed
  with f1 ch0 ws show ?case by simp
qed

lemma skip_whitespace_space:
  "isspace ch \<Longrightarrow> skip_whitespace l ch = Inr (l', ch') \<Longrightarrow> pos l + 1 \<le> pos l'"
proof -
  assume sp: "isspace ch" and r: "skip_whitespace l ch = Inr (l', ch')"
  define l1 where "l1 = (if ch = CHR ''\<newline>''
                   then l\<lparr>cur_lineno := cur_lineno l + 1, cur_linepos := 0\<rparr> else l)"
  have il1: "pos l1 = pos l" by (simp add: l1_def)
  from sp r obtain c where "skip_whitespace (next_char l1) c = Inr (l', ch')"
    by (subst (asm) skip_whitespace.simps) (simp add: l1_def Let_def split: sum.splits)
  from skip_whitespace_frame[OF this] il1 show ?thesis by (simp add: next_char_def)
qed

lemma gettoken_at_NUL:
  "rd (input l) (pos l) = Inr NUL \<Longrightarrow>
   gettoken M l t =
     Inr (next_char l,
          t\<lparr>literal := replicate 64 NUL, line := cur_lineno l, tok_pos := cur_linepos l + 1,
            type := TOKEN_EOF\<rparr>)"
proof -
  assume r: "rd (input l) (pos l) = Inr NUL"
  have s: "skip_whitespace (next_char l) NUL = Inr (next_char l, NUL)"
    by (subst skip_whitespace.simps) (simp add: isspace_def)
  have z: "(replicate 64 NUL)[0 := NUL] = replicate 64 NUL"
    by (rule nth_equalityI) (simp_all add: nth_list_update)
  show ?thesis
    using r s by (subst gettoken.simps) (simp add: Let_def next_char_def z)
qed

lemma gettoken_advances:
  assumes g: "gettoken M l t = Inr (l', t')" and r: "rd (input l) (pos l) = Inr c0"
    and c0: "isspace c0 \<or> c0 = NUL"
  shows "pos l < pos l'"
proof (cases "c0 = NUL")
  case True
  with r g show ?thesis by (auto simp: gettoken_at_NUL next_char_def)
next
  case False
  with c0 have sp: "isspace c0" by simp
  from g r obtain l1 ch where ws: "skip_whitespace (next_char l) c0 = Inr (l1, ch)"
    by (subst (asm) gettoken.simps) (cases "skip_whitespace (next_char l) c0", auto)
  from skip_whitespace_space[OF sp ws] have "pos l + 2 \<le> pos l1" by (simp add: next_char_def)
  moreover from gettoken_frame[OF g] r ws have "pos l1 \<le> pos l' + 1" by blast
  ultimately show ?thesis by simp
qed

text \<open>
  Claim C8. When \<open>gettoken\<close>, after the white space \<open>ws\<close>, meets two slashes, it skips
  the comment \<open>body\<close> up to the next newline or NUL and returns what \<open>gettoken\<close>
  returns from there: the token and the lexer are those of a call that starts at the
  end of the comment, so the comment itself yields no token. On a NUL-terminated input
  with \<open>M\<close> at most 64 the call returns, the input is untouched and the lexer stands
  behind the character that ended the comment. A comment that runs to the end of the
  input yields \<^verbatim>\<open>TOKEN_EOF\<close>, with the lexer one behind the NUL.
\<close>

theorem gettoken_line_comment:
  assumes inp: "input l = pre @ ws @ ''//'' @ body @ c # rest" and p: "pos l = length pre"
    and ws: "\<forall>x\<in>set ws. isspace x" and c: "c = CHR ''\<newline>'' \<or> c = NUL"
    and body: "CHR ''\<newline>'' \<notin> set body" "NUL \<notin> set body"
  shows "gettoken M l t =
         gettoken M (l\<lparr>pos := length pre + length ws + 2 + length body,
                       cur_lineno := cur_lineno l + count_list ws (CHR ''\<newline>''),
                       cur_linepos :=
                         (if CHR ''\<newline>'' \<in> set ws
                          then length (takeWhile (\<lambda>x. x \<noteq> CHR ''\<newline>'') (rev ws))
                          else cur_linepos l + length ws) + 2 + length body\<rparr>) t
       \<and> (M \<le> 64 \<and> NUL \<in> set (c # rest) \<longrightarrow>
            (\<exists>l' t'. gettoken M l t = Inr (l', t') \<and> input l' = input l
                \<and> length pre + length ws + 2 + length body < pos l'
                \<and> good_token M t'))
       \<and> (c = NUL \<longrightarrow>
            gettoken M l t =
              Inr (l\<lparr>pos := length pre + length ws + 2 + length body + 1,
                     cur_lineno := cur_lineno l + count_list ws (CHR ''\<newline>''),
                     cur_linepos :=
                       (if CHR ''\<newline>'' \<in> set ws
                        then length (takeWhile (\<lambda>x. x \<noteq> CHR ''\<newline>'') (rev ws))
                        else cur_linepos l + length ws) + 2 + length body + 1\<rparr>,
                   t\<lparr>type := TOKEN_EOF, literal := replicate 64 NUL,
                     line := cur_lineno l + count_list ws (CHR ''\<newline>''),
                     tok_pos :=
                       (if CHR ''\<newline>'' \<in> set ws
                        then length (takeWhile (\<lambda>x. x \<noteq> CHR ''\<newline>'') (rev ws))
                        else cur_linepos l + length ws) + 2 + length body + 1\<rparr>))"
proof -
  let ?nl = "CHR ''\<newline>''"
  let ?sl = "CHR ''/''"
  have ch0: "rd (input l) (pos l) = Inr (hd (ws @ [?sl]))"
    using inp p by (cases ws) (simp_all add: rd_def nth_append)
  define l1 where "l1 = (next_char l)\<lparr>pos := pos (next_char l) + length ws,
            cur_lineno := cur_lineno (next_char l) + count_list ws ?nl,
            cur_linepos := (if ?nl \<in> set ws
                            then length (takeWhile (\<lambda>c. c \<noteq> ?nl) (rev ws)) + 1
                            else cur_linepos (next_char l) + length ws)\<rparr>"
  have sw: "skip_whitespace (next_char l) (hd (ws @ [?sl])) = Inr (l1, ?sl)"
    unfolding l1_def using inp p ws
    by (intro skip_whitespace_run[of _ pre _ _ "?sl # body @ c # rest"])
       (simp_all add: next_char_def isspace_def)
  have il1: "input l1 = (pre @ ws @ [?sl]) @ (?sl # body) @ c # rest"
    "pos l1 = length (pre @ ws @ [?sl])"
    using inp p by (simp_all add: l1_def next_char_def)
  have nx: "rd (input l1) (pos l1) = Inr ?sl"
    unfolding il1 by (simp add: rd_def nth_append)
  define l2 where "l2 = l1\<lparr>pos := pos l1 + length (?sl # body),
      cur_linepos := cur_linepos l1 + length (?sl # body)\<rparr>"
  have sc: "skip_comment l1 = Inr l2"
    unfolding l2_def using c body by (intro skip_comment_run[OF il1]) simp_all
  have "gettoken M l t = gettoken M l2
      (t\<lparr>literal := replicate 64 NUL, line := cur_lineno l1, tok_pos := cur_linepos l1\<rparr>)"
    using ch0 sw nx sc by (subst gettoken.simps) (simp add: Let_def)
  also have "\<dots> = gettoken M l2 t" by (rule gettoken_token_irrelevant)
  finally have eq2: "gettoken M l t = gettoken M l2 t" .
  have l2: "l2 = l\<lparr>pos := length pre + length ws + 2 + length body,
                       cur_lineno := cur_lineno l + count_list ws ?nl,
                       cur_linepos :=
                         (if ?nl \<in> set ws
                          then length (takeWhile (\<lambda>x. x \<noteq> ?nl) (rev ws))
                          else cur_linepos l + length ws) + 2 + length body\<rparr>"
    using p by (simp add: l2_def l1_def next_char_def)
  have il2: "input l2 = (pre @ ws @ ''//'' @ body) @ c # rest"
    "pos l2 = length (pre @ ws @ ''//'' @ body)"
    using inp by (simp_all add: l2)
  have rc: "rd (input l2) (pos l2) = Inr c"
    unfolding il2 by (rule rd_append)
  have sp: "isspace c \<or> c = NUL" using c by (auto simp: isspace_def)
  have tot: "\<exists>l' t'. gettoken M l t = Inr (l', t') \<and> input l' = input l
                \<and> length pre + length ws + 2 + length body < pos l' \<and> good_token M t'"
    if "M \<le> 64" "NUL \<in> set (c # rest)"
  proof -
    have "terminated l" using that inp p by (auto simp: terminated_def)
    from gettoken_returns[OF that(1) this, of t] obtain l' t' where
      g: "gettoken M l t = Inr (l', t')" and gt: "good_token M t'" by blast
    from g eq2 have g2: "gettoken M l2 t = Inr (l', t')" by simp
    from gettoken_frame[OF g2] have "input l' = input l" by (simp add: l2)
    moreover from gettoken_advances[OF g2 rc sp]
    have "length pre + length ws + 2 + length body < pos l'" by (simp add: l2)
    ultimately show ?thesis using g gt by blast
  qed
  have eof: "gettoken M l t =
              Inr (l\<lparr>pos := length pre + length ws + 2 + length body + 1,
                     cur_lineno := cur_lineno l + count_list ws ?nl,
                     cur_linepos :=
                       (if ?nl \<in> set ws
                        then length (takeWhile (\<lambda>x. x \<noteq> ?nl) (rev ws))
                        else cur_linepos l + length ws) + 2 + length body + 1\<rparr>,
                   t\<lparr>type := TOKEN_EOF, literal := replicate 64 NUL,
                     line := cur_lineno l + count_list ws ?nl,
                     tok_pos :=
                       (if ?nl \<in> set ws
                        then length (takeWhile (\<lambda>x. x \<noteq> ?nl) (rev ws))
                        else cur_linepos l + length ws) + 2 + length body + 1\<rparr>)"
    if "c = NUL"
  proof -
    from rc that have "rd (input l2) (pos l2) = Inr NUL" by simp
    from gettoken_at_NUL[OF this, of M t] eq2 show ?thesis
      by (simp add: l2 next_char_def)
  qed
  from eq2 l2 tot eof show ?thesis by simp
qed

theorem gettoken_line_comment_witness:
  "input (new_lexer (''x'' @ ''  '' @ ''//'' @ '' hi'' @ CHR ''\<newline>'' # ''y'' @ [NUL]))
     = ''x'' @ ''  '' @ ''//'' @ '' hi'' @ CHR ''\<newline>'' # ''y'' @ [NUL]
   \<and> isspace (CHR '' '') \<and> CHR ''\<newline>'' \<notin> set '' hi'' \<and> NUL \<notin> set '' hi''
   \<and> NUL \<in> set (CHR ''\<newline>'' # ''y'' @ [NUL])
   \<and> gettoken 64 ((new_lexer (''x'' @ ''  '' @ ''//'' @ '' hi'' @ CHR ''\<newline>'' # ''y'' @ [NUL]))\<lparr>pos := 1\<rparr>) T0
     = gettoken 64 ((new_lexer (''x'' @ ''  '' @ ''//'' @ '' hi'' @ CHR ''\<newline>'' # ''y'' @ [NUL]))
                      \<lparr>pos := 8, cur_lineno := 1, cur_linepos := 7\<rparr>) T0
   \<and> gettoken 64 ((new_lexer (''x'' @ ''  '' @ ''//'' @ '' hi'' @ CHR ''\<newline>'' # ''y'' @ [NUL]))\<lparr>pos := 1\<rparr>) T0
     = Inr ((new_lexer (''x'' @ ''  '' @ ''//'' @ '' hi'' @ CHR ''\<newline>'' # ''y'' @ [NUL]))
              \<lparr>pos := 10, cur_lineno := 2, cur_linepos := 1\<rparr>,
            T0\<lparr>type := TOKEN_IDENT, literal := ''y'' @ replicate 63 NUL, line := 2, tok_pos := 1\<rparr>)
   \<and> (\<exists>l' t'. gettoken 64 ((new_lexer (''x'' @ ''  '' @ ''//'' @ '' hi'' @ CHR ''\<newline>'' # ''y'' @ [NUL]))\<lparr>pos := 1\<rparr>) T0
                 = Inr (l', t') \<and> 8 < pos l')
   \<and> gettoken 64 (new_lexer (''// hi'' @ [NUL])) T0
     = Inr ((new_lexer (''// hi'' @ [NUL]))\<lparr>pos := 6, cur_lineno := 1, cur_linepos := 6\<rparr>,
            T0\<lparr>type := TOKEN_EOF, literal := replicate 64 NUL, line := 1, tok_pos := 6\<rparr>)"
proof -
  have ev: "gettoken 64 ((new_lexer (''x'' @ ''  '' @ ''//'' @ '' hi'' @ CHR ''\<newline>'' # ''y'' @ [NUL]))\<lparr>pos := 1\<rparr>) T0
     = Inr ((new_lexer (''x'' @ ''  '' @ ''//'' @ '' hi'' @ CHR ''\<newline>'' # ''y'' @ [NUL]))
              \<lparr>pos := 10, cur_lineno := 2, cur_linepos := 1\<rparr>,
            T0\<lparr>type := TOKEN_IDENT, literal := ''y'' @ replicate 63 NUL, line := 2, tok_pos := 1\<rparr>)"
    by code_simp
  let ?l = "(new_lexer (''x'' @ ''  '' @ ''//'' @ '' hi'' @ CHR ''\<newline>'' # ''y'' @ [NUL]))\<lparr>pos := 1\<rparr>"
  have h: "input ?l = ''x'' @ ''  '' @ ''//'' @ '' hi'' @ CHR ''\<newline>'' # (''y'' @ [NUL])"
    "pos ?l = length ''x''" "\<forall>x\<in>set ''  ''. isspace x"
    "CHR ''\<newline>'' = CHR ''\<newline>'' \<or> CHR ''\<newline>'' = NUL"
    "CHR ''\<newline>'' \<notin> set '' hi''" "NUL \<notin> set '' hi''"
    by (simp_all add: new_lexer_def isspace_def)
  have n: "length ''x'' + length ''  '' + 2 + length '' hi'' = 8"
    "cur_lineno ?l + count_list ''  '' (CHR ''\<newline>'') = 1"
    "(if CHR ''\<newline>'' \<in> set ''  ''
      then length (takeWhile (\<lambda>x. x \<noteq> CHR ''\<newline>'') (rev ''  ''))
      else cur_linepos ?l + length ''  '') + 2 + length '' hi'' = 7"
    by (simp_all add: new_lexer_def)
  have a: "(64::nat) \<le> 64 \<and> NUL \<in> set (CHR ''\<newline>'' # ''y'' @ [NUL])" by simp
  note t = gettoken_line_comment[OF h, of 64 T0, unfolded n]
  from t a have th: "gettoken 64 ?l T0 = gettoken 64 (?l\<lparr>pos := 8, cur_lineno := 1, cur_linepos := 7\<rparr>) T0
    \<and> (\<exists>l' t'. gettoken 64 ?l T0 = Inr (l', t') \<and> 8 < pos l')"
    by blast
  let ?m = "new_lexer (''// hi'' @ [NUL])"
  have h2: "input ?m = [] @ [] @ ''//'' @ '' hi'' @ NUL # []" "pos ?m = length ([] :: string)"
    "\<forall>x\<in>set []. isspace x" "NUL = CHR ''\<newline>'' \<or> NUL = NUL"
    "CHR ''\<newline>'' \<notin> set '' hi''" "NUL \<notin> set '' hi''"
    by (simp_all add: new_lexer_def)
  have n2: "length ([] :: string) + length ([] :: string) + 2 + length '' hi'' = 5"
    "(5::nat) + 1 = 6"
    "cur_lineno ?m + count_list [] (CHR ''\<newline>'') = 1"
    "(if CHR ''\<newline>'' \<in> set []
      then length (takeWhile (\<lambda>x. x \<noteq> CHR ''\<newline>'') (rev []))
      else cur_linepos ?m + length ([] :: string)) + 2 + length '' hi'' = 5"
    by (simp_all add: new_lexer_def)
  note t2 = gettoken_line_comment[OF h2, of 64 T0, unfolded n2]
  from t2 have th2: "gettoken 64 ?m T0
     = Inr (?m\<lparr>pos := 6, cur_lineno := 1, cur_linepos := 6\<rparr>,
            T0\<lparr>type := TOKEN_EOF, literal := replicate 64 NUL, line := 1, tok_pos := 6\<rparr>)"
    by blast
  have i: "input (new_lexer (''x'' @ ''  '' @ ''//'' @ '' hi'' @ CHR ''\<newline>'' # ''y'' @ [NUL]))
     = ''x'' @ ''  '' @ ''//'' @ '' hi'' @ CHR ''\<newline>'' # ''y'' @ [NUL]
   \<and> isspace (CHR '' '') \<and> CHR ''\<newline>'' \<notin> set '' hi'' \<and> NUL \<notin> set '' hi''
   \<and> NUL \<in> set (CHR ''\<newline>'' # ''y'' @ [NUL])"
    by (simp add: new_lexer_def isspace_def)
  have r: "?l\<lparr>pos := 8, cur_lineno := 1, cur_linepos := 7\<rparr>
      = (new_lexer (''x'' @ ''  '' @ ''//'' @ '' hi'' @ CHR ''\<newline>'' # ''y'' @ [NUL]))
          \<lparr>pos := 8, cur_lineno := 1, cur_linepos := 7\<rparr>"
    by simp
  from i ev th[unfolded r] th2 show ?thesis by blast
qed

section \<open>Properties of the front end\<close>

lemma put_simps [simp]:
  "heap (put xs w) = heap w" "calls (put xs w) = calls w" "out (put xs w) = out w @ xs"
  by (simp_all add: put_def)



lemma repl_iter_prompt:
  "\<exists>xs. out (world (repl_iter E r st)) = out (world st) @ Printf ''>> '' [] # xs"
  by (simp add: repl_iter_def Let_def split: option.splits prod.splits)




lemma copy_globals_length: "length (copy_globals n src dst) = length dst"
proof -
  have "length (fold (\<lambda>i g. g[i := src ! i]) is dst) = length dst" for "is"
    by (induction "is" arbitrary: dst) simp_all
  then show ?thesis by (simp add: copy_globals_def)
qed

lemma copy_globals_nth:
  "i < length dst \<Longrightarrow> copy_globals n src dst ! i = (if i < n then src ! i else dst ! i)"
proof (induction n)
  case 0
  then show ?case by (simp add: copy_globals_def)
next
  case (Suc n)
  have "copy_globals (Suc n) src dst = (copy_globals n src dst)[n := src ! n]"
    by (simp add: copy_globals_def)
  with Suc show ?case
    by (auto simp: nth_list_update copy_globals_length less_Suc_eq)
qed

lemma copy_globals_all:
  "length dst = n \<Longrightarrow> length src = n \<Longrightarrow> copy_globals n src dst = src"
  by (rule nth_equalityI) (simp_all add: copy_globals_length copy_globals_nth)

lemma repl_loop_None: "repl_loop E stdin n st = None"
proof (cases "repl_loop E stdin n st")
  case None
  then show ?thesis .
next
  case (Some y)
  have False
    by (rule repl_loop.raw_induct[where P = "\<lambda>E stdin n st y. False", OF _ Some]) blast
  then show ?thesis ..
qed

lemma replicate_update_same [simp]: "(replicate n x)[i := x] = replicate n x"
  by (induction n arbitrary: i) (simp_all split: nat.split)

lemma demo_read_one:
  "read_file demo_env ''one.pep'' demo_world = (Return (''1;'' @ replicate 8190 NUL), demo_world)"
  by (simp add: read_file_def demo_env_def read_loop.simps[of _ _ _ "''1;''"]
       read_loop.simps[of _ _ _ "[]"] Let_def)

text \<open>
  Claim C3. A script whose file cannot be opened ends the process with \<^verbatim>\<open>exit(1)\<close>.
  Otherwise \<open>run_script\<close> returns \<^verbatim>\<open>EXIT_FAILURE\<close> when the parser counted an error,
  when \<open>compile_program\<close> returned a non-zero code or when \<open>vm_run\<close> did, and
  \<^verbatim>\<open>EXIT_SUCCESS\<close> otherwise; so it returns 0 exactly when none of the three failed.
\<close>

theorem run_script_exit_code:
  "(files E filename = None \<longrightarrow> fst (run_script E filename w) = Exit 1)
   \<and> (read_file E filename w = (Return inp, w1)
      \<and> parse_program E (new_parser E (new_lexer inp)) (heap w1) = ((program, parser), h1)
      \<and> compiler_new E h1 = (compiler, h2)
      \<and> compile_program E compiler program h2 = (cerr, h3)
      \<and> get_bytecode E compiler h3 = (code, h4)
      \<and> vm_new E code h4 = (machine, h5)
      \<and> vm_run E machine h5 = (rerr, h6) \<longrightarrow>
        fst (run_script E filename w) =
          (if errors parser > 0 \<or> cerr \<noteq> 0 \<or> rerr \<noteq> 0
           then Return EXIT_FAILURE else Return EXIT_SUCCESS)
        \<and> (fst (run_script E filename w) = Return 0
             \<longleftrightarrow> errors parser = 0 \<and> cerr = 0 \<and> rerr = 0))
   \<and> EXIT_SUCCESS = 0 \<and> EXIT_FAILURE \<noteq> 0"
  by (auto simp: run_script_def read_file_def Let_def EXIT_SUCCESS_def EXIT_FAILURE_def)

theorem run_script_exit_code_witness:
  "files demo_env ''none.pep'' = None
   \<and> fst (run_script demo_env ''none.pep'' demo_world) = Exit 1
   \<and> read_file demo_env ''one.pep'' demo_world = (Return (''1;'' @ replicate 8190 NUL), demo_world)
   \<and> fst (run_script demo_env ''one.pep'' demo_world) = Return EXIT_SUCCESS
   \<and> fst (run_script (demo_env\<lparr>vm_run := \<lambda>m h. (3, h)\<rparr>) ''one.pep'' demo_world)
       = Return EXIT_FAILURE"
proof -
  let ?p = "\<lparr>errors = 0, error_messages = [], parser_rest = ()\<rparr>"
  let ?E3 = "demo_env\<lparr>vm_run := \<lambda>m h. (3, h)\<rparr>"
  have r3: "read_file ?E3 ''one.pep'' demo_world = (Return (''1;'' @ replicate 8190 NUL), demo_world)"
    by (simp add: read_file_def demo_env_def read_loop.simps[of _ _ _ "''1;''"]
       read_loop.simps[of _ _ _ "[]"] Let_def)
  show ?thesis
    using run_script_exit_code[where E = demo_env and filename = "''none.pep''" and w = demo_world]
      run_script_exit_code[where E = demo_env and filename = "''one.pep''" and w = demo_world
        and inp = "''1;'' @ replicate 8190 NUL" and ?w1.0 = demo_world and program = 0
        and parser = ?p and ?h1.0 = 1 and compiler = 1 and ?h2.0 = 2 and cerr = 0 and ?h3.0 = 2
        and code = 2 and ?h4.0 = 3 and machine = 3 and ?h5.0 = 4 and rerr = 0 and ?h6.0 = 4]
      run_script_exit_code[where E = ?E3 and filename = "''one.pep''" and w = demo_world
        and inp = "''1;'' @ replicate 8190 NUL" and ?w1.0 = demo_world and program = 0
        and parser = ?p and ?h1.0 = 1 and compiler = 1 and ?h2.0 = 2 and cerr = 0 and ?h3.0 = 2
        and code = 2 and ?h4.0 = 3 and machine = 3 and ?h5.0 = 4 and rerr = 3 and ?h6.0 = 4]
      demo_read_one r3
    by (simp add: demo_env_def demo_world_def)
qed

lemma repl_steps_snoc:
  "repl_steps E (rs @ [r]) st = repl_iter E r (repl_steps E rs st)"
  by (induction rs arbitrary: st) simp_all

text \<open>The equation of the loop, applied \<open>k\<close> times: the loop goes on from \<open>repl_steps\<close>.\<close>

lemma repl_loop_unroll:
  "repl_loop E stdin n st = repl_loop E stdin (n + k) (repl_steps E (map stdin [n..<n + k]) st)"
proof (induction k arbitrary: n st)
  case 0
  show ?case by simp
next
  case (Suc k)
  have "repl_loop E stdin n st = repl_loop E stdin (Suc n) (repl_iter E (stdin n) st)"
    by (subst repl_loop.simps) (rule refl)
  also have "\<dots> = repl_loop E stdin (Suc n + k)
      (repl_steps E (map stdin [Suc n..<Suc n + k]) (repl_iter E (stdin n) st))"
    by (rule Suc.IH)
  also have "[n..<n + Suc k] = n # [Suc n..<Suc n + k]"
    by (subst upt_rec) simp
  then have "repl_steps E (map stdin [Suc n..<Suc n + k]) (repl_iter E (stdin n) st)
      = repl_steps E (map stdin [n..<n + Suc k]) st"
    by simp
  finally show ?case by simp
qed

text \<open>
  Claim C4. With no argument \<open>main\<close> enters the REPL: it does not return, it prints the
  banner and the line about CTRL+c, and every pass through the loop of \<open>repl\<close> starts
  with the prompt; what can be seen after \<open>k\<close> passes is the world of \<open>repl\<close> after \<open>k\<close>
  passes. With first argument \<^verbatim>\<open>--version\<close> it prints the banner and returns 0; with any
  other first argument it runs that argument as a script and returns what \<open>run_script\<close>
  returns.
\<close>

theorem main_dispatch:
  "(length argv < 2 \<longrightarrow>
      main E g0 stdin argv w
        = Unfinished (\<lambda>k. world (repl_steps E (map stdin [0..<k]) (repl_init E g0 w)))
      \<and> out (world (repl_steps E (map stdin [0..<0]) (repl_init E g0 w)))
          = out w @ [Printf ''Pepper v%d.%d.%d\<newline>'' [Int_arg 0, Int_arg 0, Int_arg 1],
                     Printf ''Press CTRL+c to exit\<newline>\<newline>'' []]
      \<and> (\<exists>xs. out (world (repl_steps E (map stdin [0..<Suc k]) (repl_init E g0 w)))
                 = out (world (repl_steps E (map stdin [0..<k]) (repl_init E g0 w)))
                   @ Printf ''>> '' [] # xs))
   \<and> (2 \<le> length argv \<and> argv ! 1 = ''--version'' \<longrightarrow>
      main E g0 stdin argv w =
        Finished (Return 0) (w\<lparr>out := out w @ [Printf ''Pepper v%d.%d.%d\<newline>''
                                                   [Int_arg 0, Int_arg 0, Int_arg 1]]\<rparr>))
   \<and> (2 \<le> length argv \<and> argv ! 1 \<noteq> ''--version'' \<longrightarrow>
      main E g0 stdin argv w =
        Finished (fst (run_script E (argv ! 1) w)) (snd (run_script E (argv ! 1) w)))"
proof -
  have a: "main E g0 stdin argv w
        = Unfinished (\<lambda>k. world (repl_steps E (map stdin [0..<k]) (repl_init E g0 w)))"
    if "length argv < 2"
  proof -
    have "repl E g0 stdin w = None" by (simp add: repl_def repl_loop_None)
    moreover have "repl_world E g0 stdin w
        = (\<lambda>k. world (repl_steps E (map stdin [0..<k]) (repl_init E g0 w)))"
      by (rule ext) (simp add: repl_world_def)
    ultimately show ?thesis using that by (simp add: main_def)
  qed
  have b: "out (world (repl_steps E (map stdin [0..<0]) (repl_init E g0 w)))
          = out w @ [Printf ''Pepper v%d.%d.%d\<newline>'' [Int_arg 0, Int_arg 0, Int_arg 1],
                     Printf ''Press CTRL+c to exit\<newline>\<newline>'' []]"
    by (simp add: repl_init_def print_version_def Let_def split: prod.splits)
  have c: "\<exists>xs. out (world (repl_steps E (map stdin [0..<Suc k]) (repl_init E g0 w)))
                 = out (world (repl_steps E (map stdin [0..<k]) (repl_init E g0 w)))
                   @ Printf ''>> '' [] # xs"
    using repl_iter_prompt[of E "stdin k" "repl_steps E (map stdin [0..<k]) (repl_init E g0 w)"]
    by (simp add: repl_steps_snoc)
  have d: "main E g0 stdin argv w =
        Finished (Return 0) (w\<lparr>out := out w @ [Printf ''Pepper v%d.%d.%d\<newline>''
                                                   [Int_arg 0, Int_arg 0, Int_arg 1]]\<rparr>)"
    if "2 \<le> length argv" "argv ! 1 = ''--version''"
    using that by (simp add: main_def print_version_def put_def)
  have e: "main E g0 stdin argv w =
        Finished (fst (run_script E (argv ! 1) w)) (snd (run_script E (argv ! 1) w))"
    if "2 \<le> length argv" "argv ! 1 \<noteq> ''--version''"
    using that by (simp add: main_def split: prod.splits)
  from a b c d e show ?thesis by blast
qed

theorem main_dispatch_witness:
  "(case main demo_env [] (\<lambda>n. if n = 0 then Some ''1;'' else None) [''pepper''] demo_world of
      Finished r w' \<Rightarrow> []
    | Unfinished f \<Rightarrow> out (f 2))
     = [Printf ''Pepper v%d.%d.%d\<newline>'' [Int_arg 0, Int_arg 0, Int_arg 1],
        Printf ''Press CTRL+c to exit\<newline>\<newline>'' [], Printf ''>> '' [],
        Print_object seven, Puts [], Printf ''>> '' []]
   \<and> main demo_env [] (\<lambda>n. None) [''pepper'', ''--version''] demo_world
     = Finished (Return 0) (demo_world\<lparr>out := [Printf ''Pepper v%d.%d.%d\<newline>''
                                               [Int_arg 0, Int_arg 0, Int_arg 1]]\<rparr>)
   \<and> main demo_env [] (\<lambda>n. None) [''pepper'', ''none.pep''] demo_world
     = Finished (Exit 1)
         (demo_world\<lparr>out := [Printf ''Could not open \"%s\" for reading'' [Str_arg ''none.pep'']]\<rparr>)"
proof -
  let ?in = "\<lambda>n::nat. if n = 0 then Some ''1;'' else None"
  have l: "length [''pepper''] < 2" "2 \<le> length [''pepper'', ''--version'']"
    "2 \<le> length [''pepper'', ''none.pep'']" "[''pepper'', ''--version''] ! 1 = ''--version''"
    "[''pepper'', ''none.pep''] ! 1 \<noteq> ''--version''" "[''pepper'', ''none.pep''] ! 1 = ''none.pep''"
    by simp_all
  have u: "map ?in [0..<2] = [Some ''1;'', None]" by (simp add: upt_conv_Cons)
  have run: "out (world (repl_steps demo_env [Some ''1;'', None] (repl_init demo_env [] demo_world)))
     = [Printf ''Pepper v%d.%d.%d\<newline>'' [Int_arg 0, Int_arg 0, Int_arg 1],
        Printf ''Press CTRL+c to exit\<newline>\<newline>'' [], Printf ''>> '' [],
        Print_object seven, Puts [], Printf ''>> '' []]"
    apply (simp add: repl_init_def demo_env_def demo_world_def print_version_def Let_def)
    apply (simp add: repl_iter_def Let_def seven_def)
    done
  have scr: "run_script demo_env ''none.pep'' demo_world
     = (Exit 1, demo_world\<lparr>out := [Printf ''Could not open \"%s\" for reading'' [Str_arg ''none.pep'']]\<rparr>)"
    by (simp add: run_script_def read_file_def demo_env_def demo_world_def put_def)
  from main_dispatch[of "[''pepper'']" demo_env "[]" ?in demo_world] l
  have 1: "main demo_env [] ?in [''pepper''] demo_world
     = Unfinished (\<lambda>k. world (repl_steps demo_env (map ?in [0..<k]) (repl_init demo_env [] demo_world)))"
    by blast
  from main_dispatch[of "[''pepper'', ''--version'']" demo_env "[]" "\<lambda>n. None" demo_world] l
  have 2: "main demo_env [] (\<lambda>n. None) [''pepper'', ''--version''] demo_world
     = Finished (Return 0) (demo_world\<lparr>out := out demo_world @ [Printf ''Pepper v%d.%d.%d\<newline>''
                                               [Int_arg 0, Int_arg 0, Int_arg 1]]\<rparr>)"
    by blast
  from main_dispatch[of "[''pepper'', ''none.pep'']" demo_env "[]" "\<lambda>n. None" demo_world] l
  have 3: "main demo_env [] (\<lambda>n. None) [''pepper'', ''none.pep''] demo_world
     = Finished (fst (run_script demo_env ''none.pep'' demo_world))
                (snd (run_script demo_env ''none.pep'' demo_world))"
    by metis
  have g1: "(case main demo_env [] ?in [''pepper''] demo_world of
      Finished r w' \<Rightarrow> []
    | Unfinished f \<Rightarrow> out (f 2))
     = [Printf ''Pepper v%d.%d.%d\<newline>'' [Int_arg 0, Int_arg 0, Int_arg 1],
        Printf ''Press CTRL+c to exit\<newline>\<newline>'' [], Printf ''>> '' [],
        Print_object seven, Puts [], Printf ''>> '' []]"
    unfolding 1 using run u by simp
  have g2: "main demo_env [] (\<lambda>n. None) [''pepper'', ''--version''] demo_world
     = Finished (Return 0) (demo_world\<lparr>out := [Printf ''Pepper v%d.%d.%d\<newline>''
                                               [Int_arg 0, Int_arg 0, Int_arg 1]]\<rparr>)"
    unfolding 2 by (simp add: demo_world_def)
  have g3: "main demo_env [] (\<lambda>n. None) [''pepper'', ''none.pep''] demo_world
     = Finished (Exit 1)
         (demo_world\<lparr>out := [Printf ''Could not open \"%s\" for reading'' [Str_arg ''none.pep'']]\<rparr>)"
    unfolding 3 scr by simp
  from g1 g2 g3 show ?thesis by blast
qed

text \<open>
  Claim C9. \<open>repl\<close> does not return: the \<^verbatim>\<open>return 0\<close> behind the loop is never
  reached. An iteration in which \<^verbatim>\<open>fgets\<close> returns \<^verbatim>\<open>NULL\<close> prints the prompt and
  changes nothing else, and so do any number of them in a row.
\<close>

theorem repl_never_returns:
  fixes E :: "('h, 'x, 'v) env" and st :: "('h, 'v) repl_state"
  shows "repl E g0 stdin w = None
   \<and> repl_iter E None st = st\<lparr>world := (world st)\<lparr>out := out (world st) @ [Printf ''>> '' []]\<rparr>\<rparr>
   \<and> repl_steps E (replicate k None) st =
       st\<lparr>world := (world st)\<lparr>out := out (world st) @ replicate k (Printf ''>> '' [])\<rparr>\<rparr>"
proof -
  have a: "repl_iter E None st' = st'\<lparr>world := (world st')\<lparr>out := out (world st') @ [Printf ''>> '' []]\<rparr>\<rparr>"
    for st' :: "('h, 'v) repl_state"
    by (simp add: repl_iter_def put_def)
  have "repl_steps E (replicate k None) st' =
       st'\<lparr>world := (world st')\<lparr>out := out (world st') @ replicate k (Printf ''>> '' [])\<rparr>\<rparr>"
    for st' :: "('h, 'v) repl_state"
  proof (induction k arbitrary: st')
    case 0
    show ?case by simp
  next
    case (Suc k)
    show ?case by (simp add: a Suc)
  qed
  then show ?thesis by (simp add: a repl_def repl_loop_None)
qed

lemma demo_state_eq:
  "demo_state = \<lparr>symbol_table = 0, constants = 1,
      globals = [\<lparr>obj_type = OBJ_NULL, obj_value = 0\<rparr>, \<lparr>obj_type = OBJ_NULL, obj_value = 0\<rparr>],
      input_buf = replicate 8192 NUL,
      world = \<lparr>heap = 2,
        out = [Printf ''Pepper v%d.%d.%d\<newline>'' [Int_arg 0, Int_arg 0, Int_arg 1],
               Printf ''Press CTRL+c to exit\<newline>\<newline>'' []],
        calls = []\<rparr>\<rparr>"
  by (simp add: demo_state_def repl_init_def demo_env_def demo_world_def print_version_def
      put_def Let_def)

text \<open>
  Claim C5. After a submission that parsed, compiled and ran without error, the REPL
  prints the value of \<open>vm_stack_last_popped\<close> exactly when its type is neither
  \<^verbatim>\<open>OBJ_COMPILED_FUNCTION\<close> nor \<^verbatim>\<open>OBJ_BUILTIN\<close>: then the iteration writes the
  prompt, the object and an empty line, otherwise the prompt only.
\<close>

theorem repl_prints_last_popped:
  assumes "parse_program E (new_parser E (new_lexer (fgets (BUFSIZ E) (input_buf st) s)))
             (heap (world st)) = ((program, parser), h1)"
    and "errors parser = 0"
    and "compiler_new_with_state E (symbol_table st) (constants st) h1 = (compiler, h2)"
    and "compile_program E compiler program h2 = (0, h3)"
    and "get_bytecode E compiler h3 = (code, h4)"
    and "vm_new_with_globals E code (globals st) h4 = (machine, h5)"
    and "vm_run E machine h5 = (0, h6)"
  shows "out (world (repl_iter E (Some s) st)) =
           out (world st) @ Printf ''>> '' []
             # (if obj_type (vm_stack_last_popped E machine h6) \<noteq> OBJ_COMPILED_FUNCTION
                  \<and> obj_type (vm_stack_last_popped E machine h6) \<noteq> OBJ_BUILTIN
                then [Print_object (vm_stack_last_popped E machine h6), Puts []] else [])
       \<and> (\<forall>ob. Print_object ob \<in> set (drop (length (out (world st)))
                                         (out (world (repl_iter E (Some s) st))))
              \<longleftrightarrow> ob = vm_stack_last_popped E machine h6
                  \<and> obj_type ob \<noteq> OBJ_COMPILED_FUNCTION \<and> obj_type ob \<noteq> OBJ_BUILTIN)"
  using assms by (auto simp: repl_iter_def Let_def)

theorem repl_prints_last_popped_witness:
  "out (world (repl_iter demo_env (Some ''1;'') demo_state)) =
     [Printf ''Pepper v%d.%d.%d\<newline>'' [Int_arg 0, Int_arg 0, Int_arg 1],
      Printf ''Press CTRL+c to exit\<newline>\<newline>'' [], Printf ''>> '' [],
      Print_object seven, Puts []]
   \<and> out (world (repl_iter
         (demo_env\<lparr>vm_stack_last_popped := \<lambda>m h. \<lparr>obj_type = OBJ_CLOSURE, obj_value = 0\<rparr>\<rparr>)
         (Some ''1;'') demo_state)) =
     [Printf ''Pepper v%d.%d.%d\<newline>'' [Int_arg 0, Int_arg 0, Int_arg 1],
      Printf ''Press CTRL+c to exit\<newline>\<newline>'' [], Printf ''>> '' [],
      Print_object \<lparr>obj_type = OBJ_CLOSURE, obj_value = 0\<rparr>, Puts []]
   \<and> out (world (repl_iter
         (demo_env\<lparr>vm_stack_last_popped := \<lambda>m h. \<lparr>obj_type = OBJ_BUILTIN, obj_value = 0\<rparr>\<rparr>)
         (Some ''1;'') demo_state)) =
     [Printf ''Pepper v%d.%d.%d\<newline>'' [Int_arg 0, Int_arg 0, Int_arg 1],
      Printf ''Press CTRL+c to exit\<newline>\<newline>'' [], Printf ''>> '' []]"
proof -
  let ?p = "\<lparr>errors = 0, error_messages = [], parser_rest = ()\<rparr>"
  let ?Ec = "demo_env\<lparr>vm_stack_last_popped := \<lambda>m h. \<lparr>obj_type = OBJ_CLOSURE, obj_value = 0\<rparr>\<rparr>"
  let ?Eb = "demo_env\<lparr>vm_stack_last_popped := \<lambda>m h. \<lparr>obj_type = OBJ_BUILTIN, obj_value = 0\<rparr>\<rparr>"
  show ?thesis
    using repl_prints_last_popped[where E = demo_env and st = demo_state and s = "''1;''"
        and program = 2 and parser = ?p and ?h1.0 = 3 and compiler = 3 and ?h2.0 = 4
        and ?h3.0 = 4 and code = 4 and ?h4.0 = 5 and machine = 5 and ?h5.0 = 6 and ?h6.0 = 6]
      repl_prints_last_popped[where E = ?Ec and st = demo_state and s = "''1;''"
        and program = 2 and parser = ?p and ?h1.0 = 3 and compiler = 3 and ?h2.0 = 4
        and ?h3.0 = 4 and code = 4 and ?h4.0 = 5 and machine = 5 and ?h5.0 = 6 and ?h6.0 = 6]
      repl_prints_last_popped[where E = ?Eb and st = demo_state and s = "''1;''"
        and program = 2 and parser = ?p and ?h1.0 = 3 and compiler = 3 and ?h2.0 = 4
        and ?h3.0 = 4 and code = 4 and ?h4.0 = 5 and machine = 5 and ?h5.0 = 6 and ?h6.0 = 6]
    by (simp add: demo_state_eq demo_env_def seven_def)
qed

subsection \<open>A binding across passes\<close>


lemma stages_of_eq:
  "parse_program E (new_parser E (new_lexer (fgets (BUFSIZ E) (input_buf st) s)))
     (heap (world st)) = ((program, parser), h1) \<Longrightarrow>
   compiler_new_with_state E (symbol_table st) (constants st) h1 = (compiler, h2) \<Longrightarrow>
   compile_program E compiler program h2 = (cerr, h3) \<Longrightarrow>
   get_bytecode E compiler h3 = (code, h4) \<Longrightarrow>
   vm_new_with_globals E code (globals st) h4 = (machine, h5) \<Longrightarrow>
   vm_run E machine h5 = (rerr, h6) \<Longrightarrow>
   stages_of E s st = \<lparr>sub_parser = parser, sub_cerr = cerr, sub_machine = machine,
                         sub_created = h5, sub_rerr = rerr, sub_ran = h6\<rparr>"
  by (simp add: stages_of_def)





subsection \<open>The core of the spec at work\<close>


lemmas core_defs = core_run_def core_state_def repl_init_def core_world_def
  core_env_def alloc_def release_def print_version_def Let_def put_def
  push_scope_def repl_iter_def fgets_def new_lexer_def c_string_def core_parse_program_def
  parse_line_def core_compile_program_def table_at_def pool_at_def emit_def
  core_get_bytecode_def core_vm_new_with_globals_def core_vm_run_def push_def arithmetic_def
  STACK_SIZE_def integer_object_def null_object_def copy_globals_all slot_of_def
  wrap64_def truncated_quotient_def

text \<open>The second end-to-end scenario and the first negative case of the spec's section 8.\<close>

lemma core_scenarios:
  "out (world (core_run [Some ''let x = 5; let y = 10; x + y;\<newline>'']))
     = out (world core_state) @ [Printf ''>> '' [], Print_object (integer_object 15), Puts []]
   \<and> out (world (core_run [Some ''let x = 2; y;\<newline>'']))
     = out (world core_state) @ [Printf ''>> '' [], Puts ''unknown identifier'']"
  by (simp add: core_defs)










subsection \<open>read_file on a file longer than BUFSIZ\<close>

lemma read_loop_done: "read_loop E inp sz [] = Inr (inp, sz)"
  by (subst read_loop.simps) simp

lemma read_file_two_chunks:
  assumes B: "0 < BUFSIZ E" "2 * BUFSIZ E < 2 ^ 32"
    and f: "files E fname = Some (xs @ ys)"
    and xs: "length xs = BUFSIZ E" and ys: "0 < length ys" "length ys < BUFSIZ E"
  shows "fst (read_file E fname w) =
     Return ((ys @ drop (length ys) xs @ map (fresh E) [BUFSIZ E..<2 * BUFSIZ E])
               [BUFSIZ E + length ys := NUL])"
proof -
  let ?B = "BUFSIZ E"
  let ?inp2 = "xs @ map (fresh E) [?B..<2 * ?B]"
  have m1: "?B mod 2 ^ 32 = ?B" "(?B + ?B) mod 2 ^ 32 = 2 * ?B"
    "(?B + length ys) mod 2 ^ 32 = ?B + length ys"
    using B ys by simp_all
  have r: "realloc E xs (?B + ?B) = ?inp2"
    using xs by (simp add: realloc_def mult_2)
  have ne: "xs \<noteq> []" using B xs by auto
  have 1: "read_loop E (replicate ?B NUL) 0 (xs @ ys) = read_loop E ?inp2 ?B ys"
    using B xs ne by (subst read_loop.simps) (simp add: Let_def m1 r)
  have 2: "read_loop E ?inp2 ?B ys =
           read_loop E (ys @ drop (length ys) ?inp2) (?B + length ys) []"
    using B xs ys by (subst read_loop.simps) (simp add: Let_def m1)
  have 3: "drop (length ys) ?inp2 = drop (length ys) xs @ map (fresh E) [?B..<2 * ?B]"
    using xs ys by simp
  show ?thesis
    using f xs ys by (simp add: read_file_def 1 2 3 read_loop_done)
qed

lemma c_string_append_NUL: "NUL \<notin> set f \<Longrightarrow> c_string (f @ NUL # rest) = f"
proof -
  have "takeWhile (\<lambda>c. c \<noteq> NUL) (f @ NUL # rest)
        = f @ takeWhile (\<lambda>c. c \<noteq> NUL) (NUL # rest)" if "NUL \<notin> set f"
    using that by (intro takeWhile_append2) auto
  then show "NUL \<notin> set f \<Longrightarrow> c_string (f @ NUL # rest) = f"
    by (simp add: c_string_def)
qed

lemma read_file_short:
  assumes "length f < BUFSIZ E" "BUFSIZ E \<le> 2 ^ 32" "files E fname = Some f" "NUL \<notin> set f"
  shows "\<exists>buf. fst (read_file E fname w) = Return buf \<and> c_string buf = f"
proof -
  let ?B = "BUFSIZ E"
  obtain k where k: "?B - length f = Suc k" using assms(1) by (cases "?B - length f") auto
  have m: "length f mod 2 ^ 32 = length f" using assms(1,2) by simp
  have 1: "read_loop E (replicate ?B NUL) 0 f =
           Inr (f @ replicate (?B - length f) NUL, length f)"
  proof (cases "f = []")
    case True
    then show ?thesis by (simp add: read_loop_done)
  next
    case False
    with assms(1) m show ?thesis
      by (subst read_loop.simps) (simp add: Let_def read_loop_done)
  qed
  have "(f @ replicate (?B - length f) NUL)[length f := NUL] = f @ NUL # replicate k NUL"
    by (simp add: k list_update_append)
  with assms(1,3,4) show ?thesis
    by (simp add: read_file_def 1 c_string_append_NUL)
qed

text \<open>
  Claim C2, at a file one byte longer than \<^verbatim>\<open>BUFSIZ\<close>: \<^verbatim>\<open>BUFSIZ\<close> times \<^verbatim>\<open>a\<close>, then
  \<^verbatim>\<open>b\<close>. The second \<^verbatim>\<open>fread\<close> stores the \<^verbatim>\<open>b\<close> over the first byte, so the string
  that \<open>read_file\<close> returns, and \<open>run_script\<close> hands to the lexer, starts with \<^verbatim>\<open>b\<close> and
  is not the file's contents.
\<close>

theorem read_file_overwrites_first_chunk:
  assumes "1 < BUFSIZ E" "2 * BUFSIZ E < 2 ^ 32"
    and "files E fname = Some (replicate (BUFSIZ E) (CHR ''a'') @ ''b'')"
  shows "\<exists>buf. fst (read_file E fname w) = Return buf
           \<and> hd (c_string buf) = CHR ''b''
           \<and> c_string buf \<noteq> replicate (BUFSIZ E) (CHR ''a'') @ ''b''"
proof -
  let ?B = "BUFSIZ E"
  let ?buf = "(''b'' @ drop (length ''b'') (replicate ?B (CHR ''a''))
                 @ map (fresh E) [?B..<2 * ?B])[?B + length ''b'' := NUL]"
  obtain n where n: "?B = Suc n" using assms(1) by (cases ?B) auto
  have r: "fst (read_file E fname w) = Return ?buf"
    using assms by (intro read_file_two_chunks) simp_all
  have h: "\<exists>tl. ?buf = CHR ''b'' # tl"
    by (simp add: n)
  then obtain tl where tl: "?buf = CHR ''b'' # tl" by blast
  have r': "fst (read_file E fname w) = Return (CHR ''b'' # tl)"
    using r unfolding tl .
  show ?thesis
    by (rule exI[of _ "CHR ''b'' # tl"]) (simp add: r' c_string_def n)
qed

theorem read_file_overwrites_first_chunk_witness:
  "1 < BUFSIZ demo_env \<and> 2 * BUFSIZ demo_env < 2 ^ 32
   \<and> files demo_env ''big.pep'' = Some (replicate (BUFSIZ demo_env) (CHR ''a'') @ ''b'')
   \<and> (\<exists>buf. fst (read_file demo_env ''big.pep'' demo_world) = Return buf
          \<and> hd (c_string buf) = CHR ''b''
          \<and> c_string buf \<noteq> replicate 8192 (CHR ''a'') @ ''b'')"
  using read_file_overwrites_first_chunk[of demo_env "''big.pep''" demo_world]
  by (simp add: demo_env_def)

section \<open>Properties of the symbol table\<close>

lemma resolve_global:
  "\<forall>sc\<in>set inner. store sc n = None \<Longrightarrow> store s n = Some smb \<Longrightarrow>
   scope smb = Global \<or> scope smb = Builtin \<Longrightarrow>
   resolve n (inner @ s # outer) = (Some smb, inner @ s # outer)"
  by (induction inner) auto

lemma resolve_free:
  assumes "\<forall>sc\<in>set inner. store sc n = None" "store s n = Some smb"
    "scope smb \<noteq> Global" "scope smb \<noteq> Builtin"
  shows "\<exists>inner'. resolve n (inner @ s # outer) =
            (Some (if inner = [] then smb
                   else \<lparr>name = name smb, scope = Free,
                          index = length (free_symbols (inner ! 0))\<rparr>), inner' @ s # outer)
         \<and> length inner' = length inner
         \<and> (\<forall>i<length inner.
               free_symbols (inner' ! i) =
                 free_symbols (inner ! i)
                   @ [if Suc i = length inner then smb
                      else \<lparr>name = name smb, scope = Free,
                             index = length (free_symbols (inner ! Suc i))\<rparr>]
             \<and> store (inner' ! i) =
                 (store (inner ! i))(name smb \<mapsto>
                    \<lparr>name = name smb, scope = Free, index = length (free_symbols (inner ! i))\<rparr>)
             \<and> num_definitions (inner' ! i) = num_definitions (inner ! i))"
  using assms(1)
proof (induction inner)
  case Nil
  with assms show ?case by simp
next
  case (Cons sc inner)
  let ?r = "if inner = [] then smb
            else \<lparr>name = name smb, scope = Free, index = length (free_symbols (inner ! 0))\<rparr>"
  have p: "\<forall>sc\<in>set inner. store sc n = None" using Cons.prems by simp
  from Cons.IH[OF p] obtain inner' where
    r: "resolve n (inner @ s # outer) = (Some ?r, inner' @ s # outer)"
    and len: "length inner' = length inner"
    and each: "\<forall>i<length inner.
               free_symbols (inner' ! i) =
                 free_symbols (inner ! i)
                   @ [if Suc i = length inner then smb
                      else \<lparr>name = name smb, scope = Free,
                             index = length (free_symbols (inner ! Suc i))\<rparr>]
             \<and> store (inner' ! i) =
                 (store (inner ! i))(name smb \<mapsto>
                    \<lparr>name = name smb, scope = Free, index = length (free_symbols (inner ! i))\<rparr>)
             \<and> num_definitions (inner' ! i) = num_definitions (inner ! i)"
    by blast
  have sr: "scope ?r \<noteq> Global" "scope ?r \<noteq> Builtin" "name ?r = name smb"
    using assms(3,4) by auto
  define sc' where "sc' = snd (define_free sc ?r)"
  have d: "define_free sc ?r =
     (\<lparr>name = name smb, scope = Free, index = length (free_symbols sc)\<rparr>, sc')"
    unfolding sc'_def using sr(3) by (simp add: define_free_def Let_def)
  have sc': "free_symbols sc' = free_symbols sc @ [?r]"
    "store sc' = (store sc)(name smb \<mapsto>
        \<lparr>name = name smb, scope = Free, index = length (free_symbols sc)\<rparr>)"
    "num_definitions sc' = num_definitions sc"
    unfolding sc'_def using sr(3) by (simp_all add: define_free_def Let_def)
  have none: "store sc n = None" using Cons.prems by simp
  have res: "resolve n ((sc # inner) @ s # outer) =
      (Some \<lparr>name = name smb, scope = Free, index = length (free_symbols sc)\<rparr>,
       (sc' # inner') @ s # outer)"
    using none r sr(1,2) d by simp
  have "\<forall>i<length (sc # inner).
               free_symbols ((sc' # inner') ! i) =
                 free_symbols ((sc # inner) ! i)
                   @ [if Suc i = length (sc # inner) then smb
                      else \<lparr>name = name smb, scope = Free,
                             index = length (free_symbols ((sc # inner) ! Suc i))\<rparr>]
             \<and> store ((sc' # inner') ! i) =
                 (store ((sc # inner) ! i))(name smb \<mapsto>
                    \<lparr>name = name smb, scope = Free,
                      index = length (free_symbols ((sc # inner) ! i))\<rparr>)
             \<and> num_definitions ((sc' # inner') ! i) = num_definitions ((sc # inner) ! i)"
  proof (intro allI impI)
    fix i assume "i < length (sc # inner)"
    then show "free_symbols ((sc' # inner') ! i) =
                 free_symbols ((sc # inner) ! i)
                   @ [if Suc i = length (sc # inner) then smb
                      else \<lparr>name = name smb, scope = Free,
                             index = length (free_symbols ((sc # inner) ! Suc i))\<rparr>]
             \<and> store ((sc' # inner') ! i) =
                 (store ((sc # inner) ! i))(name smb \<mapsto>
                    \<lparr>name = name smb, scope = Free,
                      index = length (free_symbols ((sc # inner) ! i))\<rparr>)
             \<and> num_definitions ((sc' # inner') ! i) = num_definitions ((sc # inner) ! i)"
      using sc' each by (cases i) auto
  qed
  with res len show ?case
    by (intro exI[of _ "sc' # inner'"]) simp
qed


text \<open>
  Claim C7. Let the name be absent from the scopes \<open>inner\<close> and bound to a symbol in the
  scope \<open>s\<close> that encloses them. If the symbol is \<open>Global\<close> or \<open>Builtin\<close>, \<open>resolve\<close>
  returns it and leaves the table as it is. Otherwise every scope of \<open>inner\<close> gets one
  more entry at the end of its own \<open>free_symbols\<close>, the symbol as the scope around it
  resolves the name (the original symbol for the scope next to \<open>s\<close>, the \<open>Free\<close> symbol of
  the enclosing scope for the others), and records under the name its own \<open>Free\<close>
  symbol, whose index is the place of that entry; \<open>resolve\<close> returns the \<open>Free\<close> symbol
  of the current scope.
\<close>

theorem resolve_promotes_in_every_scope:
  assumes "\<forall>sc\<in>set inner. store sc n = None" and "store s n = Some smb"
  shows "(scope smb = Global \<or> scope smb = Builtin \<longrightarrow>
            resolve n (inner @ s # outer) = (Some smb, inner @ s # outer))
       \<and> (scope smb \<noteq> Global \<and> scope smb \<noteq> Builtin \<longrightarrow>
            (\<exists>inner'. resolve n (inner @ s # outer) =
               (Some (if inner = [] then smb
                      else \<lparr>name = name smb, scope = Free,
                             index = length (free_symbols (inner ! 0))\<rparr>), inner' @ s # outer)
             \<and> length inner' = length inner
             \<and> (\<forall>i<length inner.
                   free_symbols (inner' ! i) =
                     free_symbols (inner ! i)
                       @ [if Suc i = length inner then smb
                          else \<lparr>name = name smb, scope = Free,
                                 index = length (free_symbols (inner ! Suc i))\<rparr>]
                 \<and> store (inner' ! i) =
                     (store (inner ! i))(name smb \<mapsto>
                        \<lparr>name = name smb, scope = Free,
                          index = length (free_symbols (inner ! i))\<rparr>)
                 \<and> num_definitions (inner' ! i) = num_definitions (inner ! i))))"
  using resolve_global[OF assms, of outer] resolve_free[OF assms, of outer] by blast

lemma demo_table_eq:
  "demo_table =
     [\<lparr>store = Map.empty, free_symbols = [], num_definitions = 0\<rparr>,
      \<lparr>store = Map.empty, free_symbols = [], num_definitions = 0\<rparr>,
      \<lparr>store = [''a'' \<mapsto> \<lparr>name = ''a'', scope = Local, index = 0\<rparr>], free_symbols = [],
         num_definitions = 1\<rparr>,
      \<lparr>store = [''g'' \<mapsto> \<lparr>name = ''g'', scope = Global, index = 0\<rparr>], free_symbols = [],
         num_definitions = 1\<rparr>]"
  by (simp add: demo_table_def push_scope_def Let_def)

theorem resolve_promotes_in_every_scope_witness:
  "fst (resolve ''a'' demo_table) = Some \<lparr>name = ''a'', scope = Free, index = 0\<rparr>
   \<and> map free_symbols (snd (resolve ''a'' demo_table)) =
       [[\<lparr>name = ''a'', scope = Free, index = 0\<rparr>],
        [\<lparr>name = ''a'', scope = Local, index = 0\<rparr>], [], []]
   \<and> resolve ''g'' demo_table = (Some \<lparr>name = ''g'', scope = Global, index = 0\<rparr>, demo_table)"
proof -
  let ?e = "\<lparr>store = Map.empty, free_symbols = [], num_definitions = 0\<rparr>"
  let ?f = "\<lparr>store = [''a'' \<mapsto> \<lparr>name = ''a'', scope = Local, index = 0\<rparr>],
             free_symbols = [], num_definitions = 1\<rparr>"
  let ?g = "\<lparr>store = [''g'' \<mapsto> \<lparr>name = ''g'', scope = Global, index = 0\<rparr>],
             free_symbols = [], num_definitions = 1\<rparr>"
  show ?thesis
    using resolve_promotes_in_every_scope[of "[?e, ?e]" "''a''" ?f
        "\<lparr>name = ''a'', scope = Local, index = 0\<rparr>" "[?g]"]
      resolve_promotes_in_every_scope[of "[?e, ?e, ?f]" "''g''" ?g
        "\<lparr>name = ''g'', scope = Global, index = 0\<rparr>" "[]"]
    by (simp add: demo_table_eq define_free_def Let_def)
qed

end
